theory Spec2Isabelle
  imports Main "HOL-Library.Word"
begin

section \<open>Memory: backing arrays and slices\<close>

text \<open>
  The pool's buffers are Go slices over shared backing arrays, and the generic
  marshaler lets several slices and buffers look at one array at the same time.
  The store is therefore explicit: a list of backing arrays, addressed by their
  index. A slice \<open>Slc a st l c\<close> is the window of array \<open>a\<close> that starts at \<open>st\<close>
  with length \<open>l\<close> and capacity \<open>c\<close>; \<open>NilSlice\<close> is Go's nil slice.
\<close>

type_synonym store = "string list"

datatype slice = NilSlice | Slc nat nat nat nat

fun slen :: "slice \<Rightarrow> nat" where
  "slen NilSlice = 0"
| "slen (Slc a st l c) = l"

fun scap :: "slice \<Rightarrow> nat" where
  "scap NilSlice = 0"
| "scap (Slc a st l c) = c"

fun contents :: "store \<Rightarrow> slice \<Rightarrow> string" where
  "contents h NilSlice = []"
| "contents h (Slc a st l c) = take l (drop st (h ! a))"

text \<open>The slice expression \<open>s[i:j]\<close>, for \<open>i \<le> j \<le> cap(s)\<close>.\<close>

fun slice_range :: "slice \<Rightarrow> nat \<Rightarrow> nat \<Rightarrow> slice" where
  "slice_range NilSlice i j = NilSlice"
| "slice_range (Slc a st l c) i j = Slc a (st + i) (j - i) (c - i)"

text \<open>Writing \<open>data\<close> into array \<open>a\<close> from position \<open>pos\<close> on.\<close>

definition poke :: "store \<Rightarrow> nat \<Rightarrow> nat \<Rightarrow> string \<Rightarrow> store" where
  "poke h a pos data =
     h[a := take pos (h ! a) @ data @ drop (pos + length data) (h ! a)]"

text \<open>
  Go's \<open>copy(dst, src)\<close>: the first \<open>min (len dst) (len src)\<close> bytes of the source
  land in the destination's window; the source is read before anything is written.
\<close>

fun go_copy :: "store \<Rightarrow> slice \<Rightarrow> string \<Rightarrow> store" where
  "go_copy h NilSlice data = h"
| "go_copy h (Slc a st l c) data = poke h a st (take l data)"

text \<open>
  How much capacity the runtime gives a grown array depends on the Go version
  (doubling, size classes, the 64-byte small buffer of \<open>bytes.Buffer\<close>). It is
  the parameter \<open>g\<close> (old capacity, needed length) of everything that may
  allocate; a grown array always holds the needed length.
\<close>

type_synonym growth = "nat \<Rightarrow> nat \<Rightarrow> nat"

definition newcap :: "growth \<Rightarrow> nat \<Rightarrow> nat \<Rightarrow> nat" where
  "newcap g c need = max need (g c need)"

definition go_growth :: growth where
  "go_growth c need = max 64 (2 * c + need)"

text \<open>
  \<open>append(s, data...)\<close>: in place when the capacity suffices (a nil slice with
  nothing to append stays nil), into a fresh array otherwise.
\<close>

fun go_append :: "growth \<Rightarrow> store \<Rightarrow> slice \<Rightarrow> string \<Rightarrow> store \<times> slice" where
  "go_append g h s data =
     (let n = length data in
      if n \<le> scap s - slen s then
        (case s of
           NilSlice \<Rightarrow> (h, NilSlice)
         | Slc a st l c \<Rightarrow> (poke h a (st + l) data, Slc a st (l + n) c))
      else
        (let need = slen s + n; c' = newcap g (scap s) need in
         (h @ [contents h s @ data @ replicate (c' - need) (CHR 0x00)],
          Slc (length h) 0 need c')))"

text \<open>
  A \<open>[]byte\<close> value is either a slice of the store, or memory the pool never
  writes: the caller's own data and the package-level constants, given by their
  contents. The nil \<open>[]byte\<close> is \<open>Mem NilSlice\<close>.
\<close>

datatype bytes = Ext string | Mem slice

fun bcontents :: "store \<Rightarrow> bytes \<Rightarrow> string" where
  "bcontents h (Ext s) = s"
| "bcontents h (Mem s) = contents h s"

fun blen :: "bytes \<Rightarrow> nat" where
  "blen (Ext s) = length s"
| "blen (Mem s) = slen s"

definition is_nil :: "bytes \<Rightarrow> bool" where
  "is_nil b = (b = Mem NilSlice)"

section \<open>Errors and panics\<close>

datatype error =
    EOF
  | PrefixMismatch string string
  | NumSyntax string
  | NumRange string
  | BulkLength int int
  | BulkDelim string
  | CouldNotMarshal string
  | Custom string

datatype panic = SliceBounds | MakeSliceCap | IsNilOnArray

section \<open>bytes.Buffer\<close>

text \<open>
  Modelled from Go's \<open>bytes\<close> package: a buffer is its slice \<open>buf\<close> and the read
  offset \<open>off\<close>; the unread bytes are \<open>buf[off:]\<close>.
\<close>

record buffer =
  bbuf :: slice
  boff :: nat

definition Buffer_Len :: "buffer \<Rightarrow> nat" where
  "Buffer_Len b = slen (bbuf b) - boff b"

definition Buffer_Bytes :: "buffer \<Rightarrow> slice" where
  "Buffer_Bytes b = slice_range (bbuf b) (boff b) (slen (bbuf b))"

definition Buffer_Reset :: "buffer \<Rightarrow> buffer" where
  "Buffer_Reset b = \<lparr>bbuf = slice_range (bbuf b) 0 0, boff = 0\<rparr>"

definition NewBuffer :: "slice \<Rightarrow> buffer" where
  "NewBuffer s = \<lparr>bbuf = s, boff = 0\<rparr>"

text \<open>
  \<open>grow(n)\<close> makes room for \<open>n\<close> more bytes and returns the index where they go:
  by reslicing when the capacity is there, by sliding the unread bytes down when
  that frees enough, by moving to a fresh array otherwise.
\<close>

definition Buffer_grow :: "growth \<Rightarrow> store \<Rightarrow> buffer \<Rightarrow> nat \<Rightarrow> store \<times> buffer \<times> nat" where
  "Buffer_grow g h b0 n =
     (let m = Buffer_Len b0;
          b = (if m = 0 \<and> boff b0 \<noteq> 0 then Buffer_Reset b0 else b0);
          l = slen (bbuf b);
          c = scap (bbuf b)
      in if n \<le> c - l then
           (h, b\<lparr>bbuf := slice_range (bbuf b) 0 (l + n)\<rparr>, l)
         else if m + n \<le> c div 2 then
           (go_copy h (bbuf b) (contents h (Buffer_Bytes b)),
            \<lparr>bbuf = slice_range (bbuf b) 0 (m + n), boff = 0\<rparr>, m)
         else
           (let c' = newcap g c (m + n) in
            (h @ [contents h (Buffer_Bytes b) @ replicate (c' - m) (CHR 0x00)],
             \<lparr>bbuf = Slc (length h) 0 (m + n) c', boff = 0\<rparr>, m)))"

definition Buffer_Write :: "growth \<Rightarrow> store \<Rightarrow> buffer \<Rightarrow> bytes \<Rightarrow> store \<times> buffer" where
  "Buffer_Write g h b src =
     (case Buffer_grow g h b (blen src) of
        (h1, b1, m) \<Rightarrow>
          (go_copy h1 (slice_range (bbuf b1) m (slen (bbuf b1))) (bcontents h1 src), b1))"

text \<open>\<open>Next(n)\<close> hands out at most the unread bytes; a negative \<open>n\<close> is a slice-bounds panic.\<close>

definition Buffer_Next :: "buffer \<Rightarrow> int \<Rightarrow> panic + (slice \<times> buffer)" where
  "Buffer_Next b n =
     (if n < 0 then Inl SliceBounds
      else let k = min (nat n) (Buffer_Len b) in
        Inr (slice_range (bbuf b) (boff b) (boff b + k), b\<lparr>boff := boff b + k\<rparr>))"

definition Buffer_ReadByte :: "buffer \<Rightarrow> error option \<times> buffer" where
  "Buffer_ReadByte b =
     (if slen (bbuf b) \<le> boff b then (Some EOF, Buffer_Reset b)
      else (None, b\<lparr>boff := boff b + 1\<rparr>))"

section \<open>strconv\<close>

text \<open>
  Modelled from Go's \<open>strconv\<close> package: \<open>AppendInt(dst, i, 10)\<close> appends the
  decimal text of \<open>i\<close>; \<open>ParseInt(s, 10, 64)\<close> reads an optional sign and decimal
  digits, reports a syntax error for anything else and a range error (with the
  clamped value) outside 64 bits.
\<close>

definition digit_char :: "nat \<Rightarrow> char" where
  "digit_char d = char_of (48 + d)"

fun digits :: "nat \<Rightarrow> string" where
  "digits n = (if n < 10 then [digit_char n] else digits (n div 10) @ [digit_char (n mod 10)])"

declare digits.simps [simp del]

definition itoa :: "int \<Rightarrow> string" where
  "itoa i = (if i < 0 then CHR ''-'' # digits (nat (- i)) else digits (nat i))"

definition AppendInt :: "growth \<Rightarrow> store \<Rightarrow> slice \<Rightarrow> int \<Rightarrow> store \<times> slice" where
  "AppendInt g h dst i = go_append g h dst (itoa i)"

definition is_digit :: "char \<Rightarrow> bool" where
  "is_digit c = (48 \<le> (of_char c :: nat) \<and> (of_char c :: nat) \<le> 57)"

datatype numerr = ErrSyntax | ErrRange

fun parse_digits :: "string \<Rightarrow> nat \<Rightarrow> numerr + nat" where
  "parse_digits [] n = Inr n"
| "parse_digits (c # cs) n =
     (if \<not> is_digit c then Inl ErrSyntax
      else if 10 * n + (of_char c - 48) > 2 ^ 64 - 1 then Inl ErrRange
      else parse_digits cs (10 * n + (of_char c - 48)))"

definition ParseUint :: "string \<Rightarrow> numerr + nat" where
  "ParseUint s = (if s = [] then Inl ErrSyntax else parse_digits s 0)"

definition ParseInt :: "string \<Rightarrow> 64 word \<times> error option" where
  "ParseInt s0 =
     (if s0 = [] then (0, Some (NumSyntax s0))
      else
        (let neg = (hd s0 = CHR ''-'');
             s = (if hd s0 = CHR ''+'' \<or> hd s0 = CHR ''-'' then tl s0 else s0)
         in case ParseUint s of
              Inl ErrSyntax \<Rightarrow> (0, Some (NumSyntax s0))
            | Inl ErrRange \<Rightarrow>
                (if neg then (word_of_int (- (2 ^ 63)), Some (NumRange s0))
                 else (word_of_int (2 ^ 63 - 1), Some (NumRange s0)))
            | Inr un \<Rightarrow>
                (if \<not> neg \<and> un \<ge> 2 ^ 63 then (word_of_int (2 ^ 63 - 1), Some (NumRange s0))
                 else if neg \<and> un > 2 ^ 63 then (word_of_int (- (2 ^ 63)), Some (NumRange s0))
                 else if neg then (word_of_int (- int un), None)
                 else (word_of_int (int un), None))))"

section \<open>The wire grammar's constants\<close>

definition CR :: char where "CR = CHR 0x0D"

definition LF :: char where "LF = CHR 0x0A"

definition delim :: string where "delim = [CR, LF]"

definition simpleStrPrefix :: string where "simpleStrPrefix = ''+''"

definition errPrefix :: string where "errPrefix = ''-''"

definition intPrefix :: string where "intPrefix = '':''"

definition bulkStrPrefix :: string where "bulkStrPrefix = ''$''"

definition arrayPrefix :: string where "arrayPrefix = ''*''"

definition nilBulkString :: string where "nilBulkString = ''$-1'' @ [CR, LF]"

definition nilArray :: string where "nilArray = ''*-1'' @ [CR, LF]"

section \<open>Pool\<close>

record pool =
  buf :: buffer
  scratch :: slice

definition new_Pool :: pool where
  "new_Pool = \<lparr>buf = \<lparr>bbuf = NilSlice, boff = 0\<rparr>, scratch = NilSlice\<rparr>"

text \<open>\<open>get\<close>: a nil pool pointer (\<open>None\<close>) gives a new pool, any other is reset.\<close>

definition Pool_get :: "pool option \<Rightarrow> pool" where
  "Pool_get pp =
     (case pp of
        None \<Rightarrow> new_Pool
      | Some p \<Rightarrow> p\<lparr>buf := Buffer_Reset (buf p), scratch := slice_range (scratch p) 0 0\<rparr>)"

text \<open>\<open>p.buf.Write(src)\<close> on the pair of store and pool.\<close>

text \<open>
  The pool behind a pool pointer that is only looked at: for a nil pointer, the
  zero pool.
\<close>

definition Pool_of :: "pool option \<Rightarrow> pool" where
  "Pool_of pp = (case pp of None \<Rightarrow> new_Pool | Some p \<Rightarrow> p)"

definition unread :: "store \<Rightarrow> pool \<Rightarrow> string" where
  "unread h p = contents h (Buffer_Bytes (buf p))"

definition pwrite :: "growth \<Rightarrow> bytes \<Rightarrow> store \<times> pool \<Rightarrow> store \<times> pool" where
  "pwrite g src hp =
     (case hp of (h, p) \<Rightarrow>
        (case Buffer_Write g h (buf p) src of (h', b') \<Rightarrow> (h', p\<lparr>buf := b'\<rparr>)))"

definition IndexByte :: "string \<Rightarrow> char \<Rightarrow> nat option" where
  "IndexByte s c = (if c \<in> set s then Some (length (takeWhile (\<lambda>x. x \<noteq> c) s)) else None)"

definition readSlice :: "store \<Rightarrow> pool \<Rightarrow> char \<Rightarrow> panic + (slice \<times> error option \<times> pool)" where
  "readSlice h p d =
     (let b = Buffer_Bytes (buf p);
          (i, err) = (case IndexByte (contents h b) d of
                        None \<Rightarrow> (slen b, Some EOF)
                      | Some i \<Rightarrow> (i, None))
      in case Buffer_Next (buf p) (int i + 1) of
           Inl pn \<Rightarrow> Inl pn
         | Inr (r, b') \<Rightarrow> Inr (r, err, p\<lparr>buf := b'\<rparr>))"

definition bufferedPrefix :: "store \<Rightarrow> pool \<Rightarrow> string \<Rightarrow> panic + (error option \<times> pool)" where
  "bufferedPrefix h p prefix =
     (case Buffer_Next (buf p) (int (length prefix)) of
        Inl pn \<Rightarrow> Inl pn
      | Inr (b, b') \<Rightarrow>
          Inr (if contents h b \<noteq> prefix then Some (PrefixMismatch prefix (contents h b)) else None,
               p\<lparr>buf := b'\<rparr>))"

definition bufferedBytesDelim :: "store \<Rightarrow> pool \<Rightarrow> panic + (slice \<times> error option \<times> pool)" where
  "bufferedBytesDelim h p =
     (case readSlice h p CR of
        Inl pn \<Rightarrow> Inl pn
      | Inr (b, err, p1) \<Rightarrow>
          (if err \<noteq> None then Inr (NilSlice, err, p1)
           else case Buffer_ReadByte (buf p1) of
                  (err', b') \<Rightarrow>
                    (if slen b = 0 then Inl SliceBounds
                     else Inr (slice_range b 0 (slen b - 1), err', p1\<lparr>buf := b'\<rparr>))))"

definition bufferedIntDelim :: "store \<Rightarrow> pool \<Rightarrow> panic + (64 word \<times> error option \<times> pool)" where
  "bufferedIntDelim h p =
     (case bufferedBytesDelim h p of
        Inl pn \<Rightarrow> Inl pn
      | Inr (b, err, p1) \<Rightarrow>
          (if err \<noteq> None then Inr (0, err, p1)
           else case ParseInt (contents h b) of (n, err') \<Rightarrow> Inr (n, err', p1)))"

section \<open>Scalar codecs\<close>

text \<open>
  Every codec takes the store, its \<open>*Pool\<close> field (\<open>None\<close> for nil) and its value
  field. \<open>MarshalRESP\<close> returns the store, the pool it worked on, the returned
  bytes and the error; \<open>UnmarshalRESP\<close> returns the receiver's value field in
  place of the bytes. \<open>int64\<close> and \<open>int\<close> are 64-bit words.
\<close>

type_synonym 'a ret = "store \<times> pool \<times> 'a \<times> error option"

definition pbytes :: "store \<times> pool \<Rightarrow> bytes ret" where
  "pbytes hp = (case hp of (h, p) \<Rightarrow> (h, p, Mem (Buffer_Bytes (buf p)), None))"

text \<open>\<open>p.buf.Write(strconv.AppendInt(p.scratch, i, 10))\<close>\<close>

definition pwrite_int :: "growth \<Rightarrow> int \<Rightarrow> store \<times> pool \<Rightarrow> store \<times> pool" where
  "pwrite_int g i hp =
     (case hp of (h, p) \<Rightarrow>
        (case AppendInt g h (scratch p) i of (h', s) \<Rightarrow> pwrite g (Mem s) (h', p)))"

definition SimpleString_MarshalRESP :: "growth \<Rightarrow> store \<Rightarrow> pool option \<Rightarrow> bytes \<Rightarrow> bytes ret" where
  "SimpleString_MarshalRESP g h pp S =
     pbytes (pwrite g (Ext delim) (pwrite g S (pwrite g (Ext simpleStrPrefix) (h, Pool_get pp))))"

definition SimpleString_UnmarshalRESP ::
  "growth \<Rightarrow> store \<Rightarrow> pool option \<Rightarrow> bytes \<Rightarrow> bytes \<Rightarrow> panic + bytes ret" where
  "SimpleString_UnmarshalRESP g h pp S b =
     (case pwrite g b (h, Pool_get pp) of (h1, p1) \<Rightarrow>
        (case bufferedPrefix h1 p1 simpleStrPrefix of
           Inl pn \<Rightarrow> Inl pn
         | Inr (Some err, p2) \<Rightarrow> Inr (h1, p2, S, Some err)
         | Inr (None, p2) \<Rightarrow>
             (case bufferedBytesDelim h1 p2 of
                Inl pn \<Rightarrow> Inl pn
              | Inr (r, err, p3) \<Rightarrow> Inr (h1, p3, Mem r, err))))"

text \<open>The field \<open>E\<close> of \<open>Error\<close> is an error value: nil, or one with a message.\<close>

definition Error_MarshalRESP :: "growth \<Rightarrow> store \<Rightarrow> pool option \<Rightarrow> string option \<Rightarrow> bytes ret" where
  "Error_MarshalRESP g h pp E =
     (let hp1 = pwrite g (Ext errPrefix) (h, Pool_get pp);
          hp2 = (case E of None \<Rightarrow> hp1 | Some msg \<Rightarrow> pwrite g (Ext msg) hp1)
      in pbytes (pwrite g (Ext delim) hp2))"

definition Error_UnmarshalRESP ::
  "growth \<Rightarrow> store \<Rightarrow> pool option \<Rightarrow> string option \<Rightarrow> bytes \<Rightarrow> panic + string option ret" where
  "Error_UnmarshalRESP g h pp E b =
     (case pwrite g b (h, Pool_get pp) of (h1, p1) \<Rightarrow>
        (case bufferedPrefix h1 p1 errPrefix of
           Inl pn \<Rightarrow> Inl pn
         | Inr (Some err, p2) \<Rightarrow> Inr (h1, p2, E, Some err)
         | Inr (None, p2) \<Rightarrow>
             (case bufferedBytesDelim h1 p2 of
                Inl pn \<Rightarrow> Inl pn
              | Inr (r, err, p3) \<Rightarrow> Inr (h1, p3, Some (contents h1 r), err))))"

definition Int_MarshalRESP :: "growth \<Rightarrow> store \<Rightarrow> pool option \<Rightarrow> 64 word \<Rightarrow> bytes ret" where
  "Int_MarshalRESP g h pp I =
     pbytes (pwrite g (Ext delim) (pwrite_int g (sint I) (pwrite g (Ext intPrefix) (h, Pool_get pp))))"

definition Int_UnmarshalRESP ::
  "growth \<Rightarrow> store \<Rightarrow> pool option \<Rightarrow> 64 word \<Rightarrow> bytes \<Rightarrow> panic + 64 word ret" where
  "Int_UnmarshalRESP g h pp I b =
     (case pwrite g b (h, Pool_get pp) of (h1, p1) \<Rightarrow>
        (case bufferedPrefix h1 p1 intPrefix of
           Inl pn \<Rightarrow> Inl pn
         | Inr (Some err, p2) \<Rightarrow> Inr (h1, p2, I, Some err)
         | Inr (None, p2) \<Rightarrow>
             (case bufferedIntDelim h1 p2 of
                Inl pn \<Rightarrow> Inl pn
              | Inr (n, err, p3) \<Rightarrow> Inr (h1, p3, n, err))))"

definition BulkString_MarshalRESP :: "growth \<Rightarrow> store \<Rightarrow> pool option \<Rightarrow> bytes \<Rightarrow> bytes ret" where
  "BulkString_MarshalRESP g h pp B =
     (if is_nil B then (h, Pool_of pp, Ext nilBulkString, None)
      else pbytes (pwrite g (Ext delim) (pwrite g B (pwrite g (Ext delim)
             (pwrite_int g (int (blen B)) (pwrite g (Ext bulkStrPrefix) (h, Pool_get pp)))))))"

text \<open>
  \<open>append(b.B[0:], src...)\<close> on a destination that may lie outside the store.
  A destination outside the store stays outside: \<open>append\<close> writes into its own
  backing array or into a fresh one, neither of which the pool holds. The same
  goes for \<open>make([]byte, 0, nn)\<close>, which is \<open>Ext []\<close> below, after the panic
  of a negative capacity.
\<close>

definition bytes_append :: "growth \<Rightarrow> store \<Rightarrow> bytes \<Rightarrow> string \<Rightarrow> store \<times> bytes" where
  "bytes_append g h B data =
     (case B of
        Ext s \<Rightarrow> (h, Ext (s @ data))
      | Mem s \<Rightarrow> (case go_append g h s data of (h', s') \<Rightarrow> (h', Mem s')))"

definition BulkString_UnmarshalRESP ::
  "growth \<Rightarrow> store \<Rightarrow> pool option \<Rightarrow> bytes \<Rightarrow> bytes \<Rightarrow> panic + bytes ret" where
  "BulkString_UnmarshalRESP g h pp B bb =
     (case pwrite g bb (h, Pool_get pp) of (h1, p1) \<Rightarrow>
        (case bufferedPrefix h1 p1 bulkStrPrefix of
           Inl pn \<Rightarrow> Inl pn
         | Inr (Some err, p2) \<Rightarrow> Inr (h1, p2, B, Some err)
         | Inr (None, p2) \<Rightarrow>
             (case bufferedIntDelim h1 p2 of
                Inl pn \<Rightarrow> Inl pn
              | Inr (n, Some err, p3) \<Rightarrow> Inr (h1, p3, B, Some err)
              | Inr (n, None, p3) \<Rightarrow>
                  (let nn = sint n in
                   if n = - 1 then Inr (h1, p3, Mem NilSlice, None)
                   else if is_nil B \<and> nn < 0 then Inl MakeSliceCap
                   else
                     (let B1 = (if is_nil B then Ext [] else B)
                      in case Buffer_Next (buf p3) nn of
                           Inl pn \<Rightarrow> Inl pn
                         | Inr (r, b4) \<Rightarrow>
                             (case bytes_append g h1 B1 (contents h1 r) of (h3, B2) \<Rightarrow>
                                (if int (blen B2) \<noteq> nn
                                 then Inr (h3, p3\<lparr>buf := b4\<rparr>, B2, Some (BulkLength nn (int (blen B2))))
                                 else case Buffer_Next b4 2 of
                                        Inl pn \<Rightarrow> Inl pn
                                      | Inr (d, b5) \<Rightarrow>
                                          (if contents h3 d \<noteq> delim
                                           then Inr (h3, p3\<lparr>buf := b5\<rparr>, B2, Some (BulkDelim (contents h3 d)))
                                           else Inr (h3, p3\<lparr>buf := b5\<rparr>, B2, None)))))))))"

definition ArrayHeader_MarshalRESP :: "growth \<Rightarrow> store \<Rightarrow> pool option \<Rightarrow> 64 word \<Rightarrow> bytes ret" where
  "ArrayHeader_MarshalRESP g h pp N =
     pbytes (pwrite g (Ext delim) (pwrite_int g (sint N) (pwrite g (Ext arrayPrefix) (h, Pool_get pp))))"

definition ArrayHeader_UnmarshalRESP ::
  "growth \<Rightarrow> store \<Rightarrow> pool option \<Rightarrow> 64 word \<Rightarrow> bytes \<Rightarrow> panic + 64 word ret" where
  "ArrayHeader_UnmarshalRESP g h pp N b =
     (case pwrite g b (h, Pool_get pp) of (h1, p1) \<Rightarrow>
        (case bufferedPrefix h1 p1 arrayPrefix of
           Inl pn \<Rightarrow> Inl pn
         | Inr (Some err, p2) \<Rightarrow> Inr (h1, p2, N, Some err)
         | Inr (None, p2) \<Rightarrow>
             (case bufferedIntDelim h1 p2 of
                Inl pn \<Rightarrow> Inl pn
              | Inr (n, err, p3) \<Rightarrow> Inr (h1, p3, n, err))))"

section \<open>Well-formed stores, frames and steps\<close>

fun wf_slice :: "store \<Rightarrow> slice \<Rightarrow> bool" where
  "wf_slice h NilSlice = True"
| "wf_slice h (Slc a st l c) = (a < length h \<and> l \<le> c \<and> st + c \<le> length (h ! a))"

fun wf_bytes :: "store \<Rightarrow> bytes \<Rightarrow> bool" where
  "wf_bytes h (Ext s) = True"
| "wf_bytes h (Mem s) = wf_slice h s"

definition wf_buffer :: "store \<Rightarrow> buffer \<Rightarrow> bool" where
  "wf_buffer h b = (wf_slice h (bbuf b) \<and> boff b \<le> slen (bbuf b))"

fun in_region :: "slice \<Rightarrow> nat \<Rightarrow> nat \<Rightarrow> bool" where
  "in_region NilSlice a i = False"
| "in_region (Slc a' st l c) a i = (a = a' \<and> st \<le> i \<and> i < st + c)"

definition frame :: "store \<Rightarrow> store \<Rightarrow> (nat \<Rightarrow> nat \<Rightarrow> bool) \<Rightarrow> bool" where
  "frame h h' W =
     (length h \<le> length h' \<and>
      (\<forall>a < length h. length (h' ! a) = length (h ! a) \<and>
         (\<forall>i < length (h ! a). \<not> W a i \<longrightarrow> h' ! a ! i = h ! a ! i)))"

fun stays :: "store \<Rightarrow> slice \<Rightarrow> slice \<Rightarrow> bool" where
  "stays h s NilSlice = True"
| "stays h s (Slc a' st' l' c') =
     (length h \<le> a' \<or>
      (case s of NilSlice \<Rightarrow> False
       | Slc a st l c \<Rightarrow> a' = a \<and> st \<le> st' \<and> st' + c' \<le> st + c))"

fun separate :: "slice \<Rightarrow> slice \<Rightarrow> bool" where
  "separate (Slc a st l c) (Slc a' st' l' c') = (a \<noteq> a')"
| "separate s t = True"

definition wf_pool :: "store \<Rightarrow> pool \<Rightarrow> bool" where
  "wf_pool h p = (wf_buffer h (buf p) \<and> wf_slice h (scratch p) \<and> separate (bbuf (buf p)) (scratch p))"

definition writable :: "pool \<Rightarrow> nat \<Rightarrow> nat \<Rightarrow> bool" where
  "writable p a i = (in_region (bbuf (buf p)) a i \<or> in_region (scratch p) a i)"

fun apart :: "bytes \<Rightarrow> pool \<Rightarrow> bool" where
  "apart (Ext s) p = True"
| "apart (Mem NilSlice) p = True"
| "apart (Mem (Slc a st l c)) p = (\<forall>i. st \<le> i \<and> i < st + l \<longrightarrow> \<not> writable p a i)"

definition wf_pool_opt :: "store \<Rightarrow> pool option \<Rightarrow> bool" where
  "wf_pool_opt h pp = (case pp of None \<Rightarrow> True | Some p \<Rightarrow> wf_pool h p)"

definition step :: "store \<times> pool \<Rightarrow> store \<times> pool \<Rightarrow> string \<Rightarrow> bool" where
  "step hp hp' data =
     (case hp of (h, p) \<Rightarrow> case hp' of (h', p') \<Rightarrow>
        wf_pool h' p' \<and> boff (buf p') = 0
      \<and> contents h' (bbuf (buf p')) = contents h (bbuf (buf p)) @ data
      \<and> frame h h' (writable p)
      \<and> stays h (bbuf (buf p)) (bbuf (buf p'))
      \<and> stays h (scratch p) (scratch p')
      \<and> slen (scratch p') = slen (scratch p))"

definition enc_ok :: "store \<Rightarrow> pool option \<Rightarrow> bytes ret \<Rightarrow> string \<Rightarrow> bool" where
  "enc_ok h pp res d =
     (case res of (h', p', r, e) \<Rightarrow>
        e = None \<and> r = Mem (bbuf (buf p')) \<and> contents h' (bbuf (buf p')) = d
      \<and> step (h, Pool_get pp) (h', p') d)"

section \<open>The decoders read as functions of the unread bytes\<close>

definition line_of :: "string \<Rightarrow> string" where
  "line_of u = takeWhile (\<lambda>x. x \<noteq> CR) u"

definition prefix_val :: "string \<Rightarrow> string \<Rightarrow> error option \<times> string" where
  "prefix_val pre u =
     (if take (length pre) u \<noteq> pre then Some (PrefixMismatch pre (take (length pre) u)) else None,
      drop (length pre) u)"

definition line_val :: "string \<Rightarrow> string option \<times> error option \<times> string" where
  "line_val u =
     (if CR \<notin> set u then (None, Some EOF, [])
      else (Some (line_of u),
            if length (line_of u) + 2 \<le> length u then None else Some EOF,
            drop (length (line_of u) + 2) u))"

definition int_val :: "string \<Rightarrow> 64 word \<times> error option \<times> string" where
  "int_val u =
     (case line_val u of
        (l, Some e, rest) \<Rightarrow> (0, Some e, rest)
      | (l, None, rest) \<Rightarrow> (case ParseInt (case l of None \<Rightarrow> [] | Some s \<Rightarrow> s) of (n, e) \<Rightarrow> (n, e, rest)))"

definition BulkString_val :: "bytes \<Rightarrow> string \<Rightarrow> panic + (bytes \<times> error option \<times> string)" where
  "BulkString_val B u =
     (case prefix_val bulkStrPrefix u of
        (Some pe, r1) \<Rightarrow> Inr (B, Some pe, r1)
      | (None, r1) \<Rightarrow>
          (case int_val r1 of
             (n, Some ie, r2) \<Rightarrow> Inr (B, Some ie, r2)
           | (n, None, r2) \<Rightarrow>
               (if n = - 1 then Inr (Mem NilSlice, None, r2)
                else if sint n < 0 then Inl (if is_nil B then MakeSliceCap else SliceBounds)
                else
                  (let k = nat (sint n);
                       B2 = Ext ((case B of Ext s \<Rightarrow> s | Mem s \<Rightarrow> []) @ take k r2);
                       r3 = drop k r2
                   in if int (blen B2) \<noteq> sint n
                      then Inr (B2, Some (BulkLength (sint n) (int (blen B2))), r3)
                      else if take 2 r3 \<noteq> delim
                      then Inr (B2, Some (BulkDelim (take 2 r3)), drop 2 r3)
                      else Inr (B2, None, drop 2 r3)))))"

definition bulk_early :: "string \<Rightarrow> bool" where
  "bulk_early u =
     (case prefix_val bulkStrPrefix u of
        (Some pe, r1) \<Rightarrow> True
      | (None, r1) \<Rightarrow> (case int_val r1 of (n, e, r2) \<Rightarrow> e \<noteq> None \<or> n = - 1))"

section \<open>Round trips\<close>

definition dpool :: "pool option \<Rightarrow> pool \<Rightarrow> pool option" where
  "dpool pp p1 = (case pp of None \<Rightarrow> None | Some p \<Rightarrow> Some p1)"

definition rt_SimpleString :: "growth \<Rightarrow> store \<Rightarrow> pool option \<Rightarrow> string \<Rightarrow> bool" where
  "rt_SimpleString g h pp s =
     (case SimpleString_MarshalRESP g h pp (Ext s) of (h1, p1, r, e) \<Rightarrow>
        e = None \<and>
        (case SimpleString_UnmarshalRESP g h1 (dpool pp p1) (Mem NilSlice) r of
           Inl pn \<Rightarrow> False
         | Inr (h2, p2, S', e') \<Rightarrow> e' = None \<and> bcontents h2 S' = s \<and> \<not> is_nil S'))"

definition rt_Error :: "growth \<Rightarrow> store \<Rightarrow> pool option \<Rightarrow> string \<Rightarrow> bool" where
  "rt_Error g h pp m =
     (case Error_MarshalRESP g h pp (Some m) of (h1, p1, r, e) \<Rightarrow>
        e = None \<and>
        (case Error_UnmarshalRESP g h1 (dpool pp p1) None r of
           Inl pn \<Rightarrow> False
         | Inr (h2, p2, E', e') \<Rightarrow> e' = None \<and> E' = Some m))"

definition rt_Int :: "growth \<Rightarrow> store \<Rightarrow> pool option \<Rightarrow> 64 word \<Rightarrow> bool" where
  "rt_Int g h pp i =
     (case Int_MarshalRESP g h pp i of (h1, p1, r, e) \<Rightarrow>
        e = None \<and>
        (case Int_UnmarshalRESP g h1 (dpool pp p1) 0 r of
           Inl pn \<Rightarrow> False
         | Inr (h2, p2, I', e') \<Rightarrow> e' = None \<and> I' = i))"

definition rt_BulkString :: "growth \<Rightarrow> store \<Rightarrow> pool option \<Rightarrow> bytes \<Rightarrow> bool" where
  "rt_BulkString g h pp B =
     (case BulkString_MarshalRESP g h pp B of (h1, p1, r, e) \<Rightarrow>
        e = None \<and>
        (case BulkString_UnmarshalRESP g h1 (dpool pp p1) (Mem NilSlice) r of
           Inl pn \<Rightarrow> False
         | Inr (h2, p2, B', e') \<Rightarrow>
             e' = None \<and> bcontents h2 B' = bcontents h B \<and> is_nil B' = is_nil B))"

definition rt_ArrayHeader :: "growth \<Rightarrow> store \<Rightarrow> pool option \<Rightarrow> 64 word \<Rightarrow> bool" where
  "rt_ArrayHeader g h pp n =
     (case ArrayHeader_MarshalRESP g h pp n of (h1, p1, r, e) \<Rightarrow>
        e = None \<and>
        (case ArrayHeader_UnmarshalRESP g h1 (dpool pp p1) 0 r of
           Inl pn \<Rightarrow> False
         | Inr (h2, p2, N', e') \<Rightarrow> e' = None \<and> N' = n))"

section \<open>Decimal text\<close>

lemma of_char_digit_char: "d < 10 \<Longrightarrow> (of_char (digit_char d) :: nat) = 48 + d"
  by (simp add: digit_char_def)

lemma is_digit_digit_char: "d < 10 \<Longrightarrow> is_digit (digit_char d)"
  by (simp add: is_digit_def of_char_digit_char)

lemma digits_all_digit: "c \<in> set (digits n) \<Longrightarrow> is_digit c"
proof (induction n arbitrary: c rule: digits.induct)
  case (1 n)
  show ?case
  proof (cases "n < 10")
    case True
    then show ?thesis using "1.prems" by (simp add: digits.simps[of n] is_digit_digit_char)
  next
    case False
    then show ?thesis using "1.prems" "1.IH"
      by (auto simp: digits.simps[of n] is_digit_digit_char)
  qed
qed

lemma digits_nonempty: "digits n \<noteq> []"
  by (subst digits.simps) simp

lemma parse_digits_snoc:
  "parse_digits (xs @ [c]) acc =
     (case parse_digits xs acc of
        Inl e \<Rightarrow> Inl e
      | Inr m \<Rightarrow>
          (if \<not> is_digit c then Inl ErrSyntax
           else if 10 * m + (of_char c - 48) > 2 ^ 64 - 1 then Inl ErrRange
           else Inr (10 * m + (of_char c - 48))))"
  by (induction xs arbitrary: acc) auto

lemma parse_digits_digits: "n < 2 ^ 64 \<Longrightarrow> parse_digits (digits n) 0 = Inr n"
proof (induction n rule: digits.induct)
  case (1 n)
  show ?case
  proof (cases "n < 10")
    case True
    then show ?thesis using "1.prems"
      by (simp add: digits.simps[of n] is_digit_digit_char of_char_digit_char)
  next
    case False
    have "n div 10 < 2 ^ 64" using "1.prems" by (simp add: div_less_dividend less_imp_diff_less) 
    then have IH: "parse_digits (digits (n div 10)) 0 = Inr (n div 10)" using "1.IH" False by simp
    have d: "n mod 10 < 10" by simp
    show ?thesis using False IH "1.prems"
      by (simp add: digits.simps[of n] parse_digits_snoc is_digit_digit_char[OF d] of_char_digit_char[OF d])
  qed
qed

lemma ParseUint_digits: "n < 2 ^ 64 \<Longrightarrow> ParseUint (digits n) = Inr n"
  by (simp add: ParseUint_def digits_nonempty parse_digits_digits)

lemma hd_digits_digit: "is_digit (hd (digits n))"
  using digits_all_digit[of "hd (digits n)" n] digits_nonempty[of n] by simp

lemma not_digit_signs: "\<not> is_digit (CHR ''-'')" "\<not> is_digit (CHR ''+'')" "\<not> is_digit CR"
  by (simp_all add: is_digit_def CR_def)

lemma ParseInt_itoa:
  assumes "- (2 ^ 63) \<le> i" "i < 2 ^ 63"
  shows "ParseInt (itoa i) = (word_of_int i, None)"
proof (cases "i < 0")
  case False
  then have n: "nat i < 2 ^ 64" "nat i < 2 ^ 63" using assms by (simp_all add: nat_less_iff)
  have h: "hd (digits (nat i)) \<noteq> CHR ''-''" "hd (digits (nat i)) \<noteq> CHR ''+''"
    using hd_digits_digit[of "nat i"] not_digit_signs by metis+
  show ?thesis using False n h
    by (simp add: ParseInt_def itoa_def digits_nonempty ParseUint_digits)
next
  case True
  then have n: "nat (- i) < 2 ^ 64" "nat (- i) \<le> 2 ^ 63" using assms by (simp_all add: nat_less_iff nat_le_iff)
  show ?thesis using True n
    by (simp add: ParseInt_def itoa_def ParseUint_digits)
qed

lemma ParseInt_itoa_sint: "ParseInt (itoa (sint (w :: 64 word))) = (w, None)"
proof -
  have "- (2 ^ 63) \<le> sint w" "sint w < 2 ^ 63"
    using sint_ge[of w] sint_lt[of w] by simp_all
  then show ?thesis using ParseInt_itoa by simp
qed

lemma CR_notin_itoa: "CR \<notin> set (itoa i)"
  using digits_all_digit not_digit_signs by (auto simp: itoa_def CR_def)

lemma itoa_nonempty: "itoa i \<noteq> []"
  by (simp add: itoa_def digits_nonempty)

section \<open>Store, buffer and pool\<close>

lemma length_poke [simp]: "length (poke h a pos data) = length h"
  by (simp add: poke_def)

lemma poke_nth_other [simp]: "a' \<noteq> a \<Longrightarrow> poke h a pos data ! a' = h ! a'"
  by (simp add: poke_def)

lemma poke_nth_same:
  "a < length h \<Longrightarrow> poke h a pos data ! a = take pos (h ! a) @ data @ drop (pos + length data) (h ! a)"
  by (simp add: poke_def)

lemma length_poke_same:
  "a < length h \<Longrightarrow> pos + length data \<le> length (h ! a) \<Longrightarrow> length (poke h a pos data ! a) = length (h ! a)"
  by (simp add: poke_nth_same)

lemma poke_nth_nth:
  assumes "a < length h" "pos + length data \<le> length (h ! a)" "i < length (h ! a)"
  shows "poke h a pos data ! a ! i =
         (if i < pos then h ! a ! i else if i < pos + length data then data ! (i - pos) else h ! a ! i)"
  using assms by (auto simp: poke_nth_same nth_append)

lemma contents_length: "wf_slice h s \<Longrightarrow> length (contents h s) = slen s"
  by (cases s) auto

lemma bcontents_length: "wf_bytes h b \<Longrightarrow> length (bcontents h b) = blen b"
  by (cases b) (auto simp: contents_length)

lemma contents_nth:
  "wf_slice h (Slc a st l c) \<Longrightarrow> i < l \<Longrightarrow> contents h (Slc a st l c) ! i = h ! a ! (st + i)"
  by simp

lemma frame_refl [simp]: "frame h h W"
  by (simp add: frame_def)

lemma frame_mono: "frame h h' W \<Longrightarrow> (\<And>a i. W a i \<Longrightarrow> W' a i) \<Longrightarrow> frame h h' W'"
  by (auto simp: frame_def)

lemma frame_trans:
  assumes "frame h h1 W" "frame h1 h2 W'" "\<And>a i. a < length h \<Longrightarrow> W' a i \<Longrightarrow> W a i"
  shows "frame h h2 W"
  using assms unfolding frame_def by (metis (no_types, lifting) le_trans less_le_trans)

lemma frame_wf_slice: "frame h h' W \<Longrightarrow> wf_slice h s \<Longrightarrow> wf_slice h' s"
  by (cases s) (auto simp: frame_def)

lemma frame_wf_bytes: "frame h h' W \<Longrightarrow> wf_bytes h s \<Longrightarrow> wf_bytes h' s"
  by (cases s) (auto simp: frame_wf_slice)

lemma frame_contents:
  assumes "frame h h' W" "wf_slice h (Slc a st l c)" "\<And>i. st \<le> i \<Longrightarrow> i < st + l \<Longrightarrow> \<not> W a i"
  shows "contents h' (Slc a st l c) = contents h (Slc a st l c)"
proof (rule nth_equalityI)
  have la: "a < length h" and len: "st + l \<le> length (h ! a)" using assms(2) by auto
  have len': "length (h' ! a) = length (h ! a)" using assms(1) la by (simp add: frame_def)
  show "length (contents h' (Slc a st l c)) = length (contents h (Slc a st l c))"
    using len len' by simp
  fix i assume "i < length (contents h' (Slc a st l c))"
  then have i: "i < l" by simp
  then have "h' ! a ! (st + i) = h ! a ! (st + i)"
    using assms(1,3) la len unfolding frame_def by auto
  then show "contents h' (Slc a st l c) ! i = contents h (Slc a st l c) ! i"
    using i len len' by simp
qed

lemma frame_append: "frame h (h @ xs) W"
  by (simp add: frame_def nth_append)

lemma frame_poke:
  assumes "a < length h" "pos + length data \<le> length (h ! a)"
    "\<And>i. pos \<le> i \<Longrightarrow> i < pos + length data \<Longrightarrow> W a i"
  shows "frame h (poke h a pos data) W"
  unfolding frame_def
proof (intro conjI allI impI)
  show "length h \<le> length (poke h a pos data)" by simp
next
  fix a' assume "a' < length h"
  show "length (poke h a pos data ! a') = length (h ! a')"
    using assms(1,2) by (cases "a' = a") (simp_all add: length_poke_same)
next
  fix a' i assume a': "a' < length h" and i: "i < length (h ! a')" and nw: "\<not> W a' i"
  show "poke h a pos data ! a' ! i = h ! a' ! i"
  proof (cases "a' = a")
    case True
    then show ?thesis using assms i nw by (auto simp: poke_nth_nth)
  next
    case False then show ?thesis by simp
  qed
qed

lemma stays_refl [simp]: "wf_slice h s \<Longrightarrow> stays h s s"
  by (cases s) auto

lemma stays_trans:
  "stays h s s1 \<Longrightarrow> stays h1 s1 s2 \<Longrightarrow> length h \<le> length h1 \<Longrightarrow> stays h s s2"
  by (cases s; cases s1; cases s2) auto

lemma stays_region: "stays h s s' \<Longrightarrow> a < length h \<Longrightarrow> in_region s' a i \<Longrightarrow> in_region s a i"
  by (cases s; cases s') auto

lemma stays_separate:
  "stays h s s' \<Longrightarrow> separate s t \<Longrightarrow> wf_slice h t \<Longrightarrow> separate s' t"
  by (cases s; cases s'; cases t) auto

lemma stays_separate2:
  "stays h s s' \<Longrightarrow> separate t s \<Longrightarrow> wf_slice h t \<Longrightarrow> separate t s'"
  by (cases s; cases s'; cases t) auto

lemma separate_sym: "separate s t \<Longrightarrow> separate t s"
  by (cases s; cases t) auto

lemma separate_contents:
  "frame h h' (in_region s) \<Longrightarrow> separate s t \<Longrightarrow> wf_slice h t \<Longrightarrow> contents h' t = contents h t"
proof (cases t)
  case NilSlice
  then show ?thesis by simp
next
  case (Slc a st l c)
  assume f: "frame h h' (in_region s)" and sep: "separate s t" and wf: "wf_slice h t"
  have "\<And>i. \<not> in_region s a i" using sep Slc by (cases s) auto
  then show ?thesis using frame_contents[OF f wf[unfolded Slc]] Slc by simp
qed

text \<open>Buffer_grow and Buffer_Write when nothing has been read\<close>

lemma Buffer_grow_off0:
  assumes "wf_buffer h b" "boff b = 0"
  shows "Buffer_grow g h b n =
     (if n \<le> scap (bbuf b) - slen (bbuf b)
      then (h, b\<lparr>bbuf := slice_range (bbuf b) 0 (slen (bbuf b) + n)\<rparr>, slen (bbuf b))
      else (h @ [contents h (bbuf b) @ replicate (newcap g (scap (bbuf b)) (slen (bbuf b) + n) - slen (bbuf b)) (CHR 0x00)],
            \<lparr>bbuf = Slc (length h) 0 (slen (bbuf b) + n) (newcap g (scap (bbuf b)) (slen (bbuf b) + n)), boff = 0\<rparr>,
            slen (bbuf b)))"
proof -
  have l: "slen (bbuf b) \<le> scap (bbuf b)" using assms(1) by (cases "bbuf b") (auto simp: wf_buffer_def)
  have bts: "Buffer_Bytes b = bbuf b" using assms(2) by (cases "bbuf b") (auto simp: Buffer_Bytes_def)
  show ?thesis
    using l assms(2) by (auto simp: Buffer_grow_def Buffer_Len_def Let_def bts)
qed

lemma newcap_ge: "need \<le> newcap g c need"
  by (simp add: newcap_def)

lemma Buffer_Write_spec:
  assumes wf: "wf_buffer h b" and off: "boff b = 0" and src: "wf_bytes h src"
    and W: "Buffer_Write g h b src = (h', b')"
  shows "wf_buffer h' b' \<and> boff b' = 0
       \<and> contents h' (bbuf b') = contents h (bbuf b) @ bcontents h src
       \<and> frame h h' (in_region (bbuf b))
       \<and> stays h (bbuf b) (bbuf b')"
proof -
  let ?n = "blen src"
  let ?data = "bcontents h src"
  have dlen: "length ?data = ?n" using src by (rule bcontents_length)
  show ?thesis
  proof (cases "?n \<le> scap (bbuf b) - slen (bbuf b)")
    case True
    show ?thesis
    proof (cases "bbuf b")
      case NilSlice
      with True have "?n = 0" by simp
      with NilSlice True W wf off dlen show ?thesis
        by (auto simp: Buffer_Write_def Buffer_grow_off0 wf_buffer_def)
    next
      case (Slc a st l c)
      have a: "a < length h" and lc: "l \<le> c" and stc: "st + c \<le> length (h ! a)"
        using wf Slc by (auto simp: wf_buffer_def)
      have n: "l + ?n \<le> c" using True Slc lc by simp
      have h': "h' = poke h a (st + l) ?data" and b': "b' = b\<lparr>bbuf := Slc a st (l + ?n) c\<rparr>"
        using W True Slc wf off dlen
        by (auto simp: Buffer_Write_def Buffer_grow_off0)
      have fr: "frame h h' (in_region (bbuf b))"
        unfolding h' using a stc n dlen Slc by (intro frame_poke) auto
      have ct: "contents h' (bbuf b') = contents h (bbuf b) @ ?data"
        using a stc n dlen Slc lc unfolding h' b'
        by (simp add: poke_nth_same drop_take)
      show ?thesis
        using fr ct a stc n Slc off by (auto simp: b' h' wf_buffer_def length_poke_same dlen)
    qed
  next
    case False
    let ?l = "slen (bbuf b)"
    let ?c' = "newcap g (scap (bbuf b)) (?l + ?n)"
    let ?h1 = "h @ [contents h (bbuf b) @ replicate (?c' - ?l) (CHR 0x00)]"
    have cl: "length (contents h (bbuf b)) = ?l" using wf by (simp add: wf_buffer_def contents_length)
    have ge: "?l + ?n \<le> ?c'" by (rule newcap_ge)
    have d1: "bcontents ?h1 src = ?data"
      using src by (cases src; cases "case src of Mem s \<Rightarrow> s") (auto simp: nth_append)
    have h': "h' = poke ?h1 (length h) ?l ?data"
      and b': "b' = \<lparr>bbuf = Slc (length h) 0 (?l + ?n) ?c', boff = 0\<rparr>"
      using W False wf off dlen d1
      by (auto simp: Buffer_Write_def Buffer_grow_off0)
    have fr: "frame h h' (in_region (bbuf b))"
      unfolding h' frame_def by (auto simp: nth_append poke_def)
    have ct: "contents h' (bbuf b') = contents h (bbuf b) @ ?data"
      using cl ge dlen unfolding h' b' by (simp add: poke_nth_same)
    have wf': "wf_buffer h' b'"
      using cl ge dlen unfolding h' b' by (simp add: wf_buffer_def poke_nth_same)
    show ?thesis using fr ct wf' by (simp add: b')
  qed
qed

lemma go_append_spec:
  assumes wf: "wf_slice h s" and A: "go_append g h s data = (h', s')"
  shows "wf_slice h' s' \<and> contents h' s' = contents h s @ data
       \<and> frame h h' (in_region s) \<and> stays h s s'"
proof (cases "length data \<le> scap s - slen s")
  case True
  show ?thesis
  proof (cases s)
    case NilSlice
    with True A show ?thesis by auto
  next
    case (Slc a st l c)
    have a: "a < length h" and lc: "l \<le> c" and stc: "st + c \<le> length (h ! a)"
      using wf Slc by auto
    have n: "l + length data \<le> c" using True Slc lc by simp
    have h': "h' = poke h a (st + l) data" and s': "s' = Slc a st (l + length data) c"
      using A True Slc by auto
    have fr: "frame h h' (in_region s)"
      unfolding h' using a stc n Slc by (intro frame_poke) auto
    have ct: "contents h' s' = contents h s @ data"
      using a stc n Slc lc unfolding h' s' by (simp add: poke_nth_same drop_take)
    show ?thesis using fr ct a stc n Slc by (auto simp: s' h' length_poke_same)
  qed
next
  case False
  let ?need = "slen s + length data"
  let ?c' = "newcap g (scap s) ?need"
  have cl: "length (contents h s) = slen s" using wf by (simp add: contents_length)
  have ge: "?need \<le> ?c'" by (rule newcap_ge)
  have h': "h' = h @ [contents h s @ data @ replicate (?c' - ?need) (CHR 0x00)]"
    and s': "s' = Slc (length h) 0 ?need ?c'"
    using A False by (auto simp: Let_def)
  have fr: "frame h h' (in_region s)" unfolding h' by (rule frame_append)
  show ?thesis using fr cl ge unfolding h' s' by simp
qed

lemma frame_wf_buffer: "frame h h' W \<Longrightarrow> wf_buffer h b \<Longrightarrow> wf_buffer h' b"
  by (auto simp: wf_buffer_def frame_wf_slice)

lemma wf_slice_lt: "wf_slice h (Slc a st l c) \<Longrightarrow> a < length h"
  by simp

lemma pwrite_spec:
  assumes wf: "wf_pool h p" and off: "boff (buf p) = 0" and src: "wf_bytes h src"
    and W: "pwrite g src (h, p) = (h', p')"
  shows "step (h, p) (h', p') (bcontents h src) \<and> scratch p' = scratch p"
proof -
  obtain b' where BW: "Buffer_Write g h (buf p) src = (h', b')" and p': "p' = p\<lparr>buf := b'\<rparr>"
    using W by (auto simp: pwrite_def split: prod.splits)
  have wfb: "wf_buffer h (buf p)" and wfs: "wf_slice h (scratch p)"
    and sep: "separate (bbuf (buf p)) (scratch p)"
    using wf by (auto simp: wf_pool_def)
  note S = Buffer_Write_spec[OF wfb off src BW]
  have fr: "frame h h' (in_region (bbuf (buf p)))" using S by simp
  have "wf_slice h' (scratch p)" using fr wfs by (rule frame_wf_slice)
  moreover have "separate (bbuf b') (scratch p)"
    using S sep wfs by (auto intro: stays_separate)
  moreover have "frame h h' (writable p)"
    using fr by (rule frame_mono) (simp add: writable_def)
  ultimately show ?thesis
    using S wfs by (simp add: step_def p' wf_pool_def)
qed

lemma step_trans:
  assumes "step (h, p) (h1, p1) d1" "step (h1, p1) (h2, p2) d2"
  shows "step (h, p) (h2, p2) (d1 @ d2)"
proof -
  have len: "length h \<le> length h1" using assms(1) by (simp add: step_def frame_def)
  have "frame h h2 (writable p)"
  proof (rule frame_trans)
    show "frame h h1 (writable p)" using assms(1) by (simp add: step_def)
    show "frame h1 h2 (writable p1)" using assms(2) by (simp add: step_def)
    fix a i assume "a < length h" "writable p1 a i"
    then show "writable p a i"
      using assms(1) by (auto simp: step_def writable_def dest: stays_region)
  qed
  moreover have "stays h (bbuf (buf p)) (bbuf (buf p2))"
    using assms len by (auto simp: step_def intro: stays_trans)
  moreover have "stays h (scratch p) (scratch p2)"
    using assms len by (auto simp: step_def intro: stays_trans)
  ultimately show ?thesis using assms by (simp add: step_def)
qed

lemma step_wf: "step (h, p) (h', p') d \<Longrightarrow> wf_pool h' p' \<and> boff (buf p') = 0"
  by (simp add: step_def)

lemma apart_frame:
  assumes "frame h h' (writable p)" "apart B p" "wf_bytes h B"
  shows "bcontents h' B = bcontents h B"
proof (cases B)
  case (Ext s) then show ?thesis by simp
next
  case (Mem s)
  show ?thesis
  proof (cases s)
    case NilSlice with Mem show ?thesis by simp
  next
    case (Slc a st l c)
    have "contents h' (Slc a st l c) = contents h (Slc a st l c)"
      using assms Mem Slc by (intro frame_contents[where W="writable p"]) auto
    then show ?thesis using Mem Slc by simp
  qed
qed

lemma apart_step:
  assumes "step (h, p) (h', p') d" "apart B p" "wf_bytes h B"
  shows "bcontents h' B = bcontents h B \<and> apart B p' \<and> wf_bytes h' B"
proof -
  have fr: "frame h h' (writable p)" using assms(1) by (simp add: step_def)
  have 1: "bcontents h' B = bcontents h B" using fr assms(2,3) by (rule apart_frame)
  have 2: "wf_bytes h' B" using fr assms(3) by (rule frame_wf_bytes)
  have 3: "apart B p'"
  proof (cases B)
    case (Ext s) then show ?thesis by simp
  next
    case (Mem s)
    show ?thesis
    proof (cases s)
      case NilSlice with Mem show ?thesis by simp
    next
      case (Slc a st l c)
      have a: "a < length h" using assms(3) Mem Slc by simp
      have "\<And>i. writable p' a i \<Longrightarrow> writable p a i"
        using assms(1) a by (auto simp: step_def writable_def dest: stays_region)
      then show ?thesis using assms(2) Mem Slc by auto
    qed
  qed
  show ?thesis using 1 2 3 by simp
qed

lemma pwrite_step:
  assumes "step hp0 (h, p) d" "wf_bytes h src" "pwrite g src (h, p) = (h', p')"
  shows "step hp0 (h', p') (d @ bcontents h src)"
proof -
  obtain h0 p0 where hp0: "hp0 = (h0, p0)" by (cases hp0)
  have wfp: "wf_pool h p" "boff (buf p) = 0" using assms(1) by (simp_all add: step_def hp0)
  have "step (h, p) (h', p') (bcontents h src)"
    using pwrite_spec[OF wfp assms(2,3)] by simp
  then show ?thesis using assms(1) step_trans unfolding hp0 by blast
qed

lemma pwrite_int_spec:
  assumes wf: "wf_pool h p" and off: "boff (buf p) = 0" and z: "slen (scratch p) = 0"
    and W: "pwrite_int g i (h, p) = (h', p')"
  shows "step (h, p) (h', p') (itoa i)"
proof -
  obtain h1 s where A: "go_append g h (scratch p) (itoa i) = (h1, s)"
    and P: "pwrite g (Mem s) (h1, p) = (h', p')"
    using W by (auto simp: pwrite_int_def AppendInt_def split: prod.splits)
  have wfb: "wf_buffer h (buf p)" and wfs: "wf_slice h (scratch p)"
    and sep: "separate (bbuf (buf p)) (scratch p)"
    using wf by (auto simp: wf_pool_def)
  note S = go_append_spec[OF wfs A]
  have fr: "frame h h1 (in_region (scratch p))" using S by simp
  have cz: "contents h (scratch p) = []" using z wfs contents_length by fastforce
  have s: "contents h1 s = itoa i" using S cz by simp
  have wf1: "wf_pool h1 p"
    using fr wfb wfs sep by (simp add: wf_pool_def frame_wf_buffer frame_wf_slice)
  have bc: "contents h1 (bbuf (buf p)) = contents h (bbuf (buf p))"
    using fr separate_sym[OF sep] wfb by (intro separate_contents) (auto simp: wf_buffer_def)
  have st1: "step (h, p) (h1, p) []"
    using wf1 off bc wfb wfs frame_mono[OF fr, of "writable p"]
    by (auto simp: step_def writable_def wf_buffer_def)
  have "wf_bytes h1 (Mem s)" using S by simp
  from pwrite_step[OF st1 this P] show ?thesis using s by simp
qed

lemma pwrite_int_step:
  assumes "step hp0 (h, p) d" "slen (scratch p) = 0" "pwrite_int g i (h, p) = (h', p')"
  shows "step hp0 (h', p') (d @ itoa i)"
proof -
  obtain h0 p0 where hp0: "hp0 = (h0, p0)" by (cases hp0)
  have wfp: "wf_pool h p" "boff (buf p) = 0" using assms(1) by (simp_all add: step_def hp0)
  have "step (h, p) (h', p') (itoa i)"
    using pwrite_int_spec[OF wfp assms(2,3)] by simp
  then show ?thesis using assms(1) step_trans unfolding hp0 by blast
qed

lemma Pool_get_wf:
  assumes "wf_pool_opt h pp"
  shows "wf_pool h (Pool_get pp)" "boff (buf (Pool_get pp)) = 0"
    "slen (bbuf (buf (Pool_get pp))) = 0" "slen (scratch (Pool_get pp)) = 0"
proof -
  show "wf_pool h (Pool_get pp)"
  proof (cases pp)
    case None then show ?thesis
      by (simp add: Pool_get_def new_Pool_def wf_pool_def wf_buffer_def)
  next
    case (Some p)
    then have "wf_pool h p" using assms by (simp add: wf_pool_opt_def)
    then show ?thesis using Some
      by (cases "bbuf (buf p)"; cases "scratch p")
         (auto simp: Pool_get_def wf_pool_def wf_buffer_def Buffer_Reset_def)
  qed
  show "boff (buf (Pool_get pp)) = 0"
    by (cases pp) (auto simp: Pool_get_def new_Pool_def Buffer_Reset_def)
  show "slen (bbuf (buf (Pool_get pp))) = 0"
    by (cases pp; cases "bbuf (buf (the pp))") (auto simp: Pool_get_def new_Pool_def Buffer_Reset_def)
  show "slen (scratch (Pool_get pp)) = 0"
    by (cases pp; cases "scratch (the pp)") (auto simp: Pool_get_def new_Pool_def)
qed

lemma step_init:
  assumes "wf_pool h p" "boff (buf p) = 0" "slen (bbuf (buf p)) = 0"
  shows "step (h, p) (h, p) []"
proof -
  have "contents h (bbuf (buf p)) = []"
    using assms by (cases "bbuf (buf p)") auto
  then show ?thesis using assms by (auto simp: step_def wf_pool_def wf_buffer_def)
qed

section \<open>The scalar encoders\<close>

lemma Buffer_Bytes_off0: "boff b = 0 \<Longrightarrow> Buffer_Bytes b = bbuf b"
  by (cases "bbuf b") (auto simp: Buffer_Bytes_def)

lemma pbytes_step:
  assumes "step (h0, p0) (h, p) d" "slen (bbuf (buf p0)) = 0" "wf_pool h0 p0"
  shows "pbytes (h, p) = (h, p, Mem (bbuf (buf p)), None) \<and> contents h (bbuf (buf p)) = d"
proof -
  have "contents h0 (bbuf (buf p0)) = []"
    using assms(2,3) contents_length[of h0 "bbuf (buf p0)"] by (simp add: wf_pool_def wf_buffer_def)
  then show ?thesis using assms(1) by (simp add: pbytes_def step_def Buffer_Bytes_off0)
qed

lemma SimpleString_MarshalRESP_spec:
  assumes wf: "wf_pool_opt h pp" and S: "wf_bytes h S" and ap: "apart S (Pool_get pp)"
  shows "enc_ok h pp (SimpleString_MarshalRESP g h pp S) (simpleStrPrefix @ bcontents h S @ delim)"
proof -
  let ?p0 = "Pool_get pp"
  note G = Pool_get_wf[OF wf]
  have s0: "step (h, ?p0) (h, ?p0) []" using G by (intro step_init)
  obtain h1 p1 where 1: "pwrite g (Ext simpleStrPrefix) (h, ?p0) = (h1, p1)" by fastforce
  have s1: "step (h, ?p0) (h1, p1) simpleStrPrefix"
    using pwrite_step[OF s0 _ 1] by simp
  note a1 = apart_step[OF s1 ap S]
  obtain h2 p2 where 2: "pwrite g S (h1, p1) = (h2, p2)" by fastforce
  have s2: "step (h, ?p0) (h2, p2) (simpleStrPrefix @ bcontents h S)"
    using pwrite_step[OF s1 _ 2] a1 by simp
  obtain h3 p3 where 3: "pwrite g (Ext delim) (h2, p2) = (h3, p3)" by fastforce
  have s3: "step (h, ?p0) (h3, p3) (simpleStrPrefix @ bcontents h S @ delim)"
    using pwrite_step[OF s2 _ 3] by simp
  show ?thesis
    using pbytes_step[OF s3 G(3) G(1)] s3
    by (simp add: enc_ok_def SimpleString_MarshalRESP_def 1 2 3)
qed

lemma Error_MarshalRESP_spec:
  assumes wf: "wf_pool_opt h pp"
  shows "enc_ok h pp (Error_MarshalRESP g h pp E)
           (errPrefix @ (case E of None \<Rightarrow> [] | Some m \<Rightarrow> m) @ delim)"
proof -
  let ?p0 = "Pool_get pp"
  let ?m = "case E of None \<Rightarrow> [] | Some m \<Rightarrow> m"
  note G = Pool_get_wf[OF wf]
  have s0: "step (h, ?p0) (h, ?p0) []" using G by (intro step_init)
  obtain h1 p1 where 1: "pwrite g (Ext errPrefix) (h, ?p0) = (h1, p1)" by fastforce
  have s1: "step (h, ?p0) (h1, p1) errPrefix"
    using pwrite_step[OF s0 _ 1] by simp
  obtain h2 p2 where 2: "(case E of None \<Rightarrow> (h1, p1) | Some msg \<Rightarrow> pwrite g (Ext msg) (h1, p1)) = (h2, p2)"
    by fastforce
  have s2: "step (h, ?p0) (h2, p2) (errPrefix @ ?m)"
  proof (cases E)
    case None then show ?thesis using s1 2 by simp
  next
    case (Some m)
    then have "pwrite g (Ext m) (h1, p1) = (h2, p2)" using 2 by simp
    from pwrite_step[OF s1 _ this] show ?thesis using Some by simp
  qed
  obtain h3 p3 where 3: "pwrite g (Ext delim) (h2, p2) = (h3, p3)" by fastforce
  have s3: "step (h, ?p0) (h3, p3) (errPrefix @ ?m @ delim)"
    using pwrite_step[OF s2 _ 3] by simp
  show ?thesis
    using pbytes_step[OF s3 G(3) G(1)] s3
    by (simp add: enc_ok_def Error_MarshalRESP_def 1 2 3)
qed

lemma int_line_spec:
  assumes wf: "wf_pool_opt h pp"
  shows "enc_ok h pp
           (pbytes (pwrite g (Ext delim) (pwrite_int g i (pwrite g (Ext pre) (h, Pool_get pp)))))
           (pre @ itoa i @ delim)"
proof -
  let ?p0 = "Pool_get pp"
  note G = Pool_get_wf[OF wf]
  have s0: "step (h, ?p0) (h, ?p0) []" using G by (intro step_init)
  obtain h1 p1 where 1: "pwrite g (Ext pre) (h, ?p0) = (h1, p1)" by fastforce
  have s1: "step (h, ?p0) (h1, p1) pre"
    using pwrite_step[OF s0 _ 1] by simp
  have z1: "slen (scratch p1) = 0" using s1 G(4) by (simp add: step_def)
  obtain h2 p2 where 2: "pwrite_int g i (h1, p1) = (h2, p2)" by fastforce
  have s2: "step (h, ?p0) (h2, p2) (pre @ itoa i)"
    using pwrite_int_step[OF s1 z1 2] by simp
  obtain h3 p3 where 3: "pwrite g (Ext delim) (h2, p2) = (h3, p3)" by fastforce
  have s3: "step (h, ?p0) (h3, p3) (pre @ itoa i @ delim)"
    using pwrite_step[OF s2 _ 3] by simp
  show ?thesis
    using pbytes_step[OF s3 G(3) G(1)] s3
    by (simp add: enc_ok_def 1 2 3)
qed

lemma Int_MarshalRESP_spec:
  "wf_pool_opt h pp \<Longrightarrow> enc_ok h pp (Int_MarshalRESP g h pp I) (intPrefix @ itoa (sint I) @ delim)"
  unfolding Int_MarshalRESP_def by (rule int_line_spec)

lemma ArrayHeader_MarshalRESP_spec:
  "wf_pool_opt h pp \<Longrightarrow> enc_ok h pp (ArrayHeader_MarshalRESP g h pp N) (arrayPrefix @ itoa (sint N) @ delim)"
  unfolding ArrayHeader_MarshalRESP_def by (rule int_line_spec)

lemma BulkString_MarshalRESP_nil:
  "BulkString_MarshalRESP g h pp (Mem NilSlice) = (h, Pool_of pp, Ext nilBulkString, None)"
  by (simp add: BulkString_MarshalRESP_def is_nil_def)

lemma BulkString_MarshalRESP_spec:
  assumes wf: "wf_pool_opt h pp" and S: "wf_bytes h B" and ap: "apart B (Pool_get pp)"
    and nn: "\<not> is_nil B"
  shows "enc_ok h pp (BulkString_MarshalRESP g h pp B)
           (bulkStrPrefix @ itoa (int (blen B)) @ delim @ bcontents h B @ delim)"
proof -
  let ?p0 = "Pool_get pp"
  note G = Pool_get_wf[OF wf]
  have s0: "step (h, ?p0) (h, ?p0) []" using G by (intro step_init)
  obtain h1 p1 where 1: "pwrite g (Ext bulkStrPrefix) (h, ?p0) = (h1, p1)" by fastforce
  have s1: "step (h, ?p0) (h1, p1) bulkStrPrefix"
    using pwrite_step[OF s0 _ 1] by simp
  have z1: "slen (scratch p1) = 0" using s1 G(4) by (simp add: step_def)
  obtain h2 p2 where 2: "pwrite_int g (int (blen B)) (h1, p1) = (h2, p2)" by fastforce
  have s2: "step (h, ?p0) (h2, p2) (bulkStrPrefix @ itoa (int (blen B)))"
    using pwrite_int_step[OF s1 z1 2] by simp
  obtain h3 p3 where 3: "pwrite g (Ext delim) (h2, p2) = (h3, p3)" by fastforce
  have s3: "step (h, ?p0) (h3, p3) (bulkStrPrefix @ itoa (int (blen B)) @ delim)"
    using pwrite_step[OF s2 _ 3] by simp
  note a3 = apart_step[OF s3 ap S]
  obtain h4 p4 where 4: "pwrite g B (h3, p3) = (h4, p4)" by fastforce
  have s4: "step (h, ?p0) (h4, p4) (bulkStrPrefix @ itoa (int (blen B)) @ delim @ bcontents h B)"
    using pwrite_step[OF s3 _ 4] a3 by simp
  obtain h5 p5 where 5: "pwrite g (Ext delim) (h4, p4) = (h5, p5)" by fastforce
  have s5: "step (h, ?p0) (h5, p5) (bulkStrPrefix @ itoa (int (blen B)) @ delim @ bcontents h B @ delim)"
    using pwrite_step[OF s4 _ 5] by simp
  show ?thesis
    using pbytes_step[OF s5 G(3) G(1)] s5 nn
    by (simp add: enc_ok_def BulkString_MarshalRESP_def 1 2 3 4 5)
qed

section \<open>Reading from the buffer\<close>

lemma Buffer_Next_spec:
  assumes wf: "wf_buffer h b" and n: "0 \<le> n"
  shows "\<exists>r b'. Buffer_Next b n = Inr (r, b') \<and> wf_slice h r \<and> wf_buffer h b'
           \<and> contents h r = take (nat n) (contents h (Buffer_Bytes b))
           \<and> contents h (Buffer_Bytes b') = drop (nat n) (contents h (Buffer_Bytes b))"
proof (cases "bbuf b")
  case NilSlice
  then show ?thesis using wf n
    by (auto simp: Buffer_Next_def Buffer_Bytes_def Buffer_Len_def wf_buffer_def Let_def)
next
  case (Slc a st l c)
  let ?off = "boff b"
  let ?k = "min (nat n) (l - ?off)"
  have a: "a < length h" and lc: "l \<le> c" and stc: "st + c \<le> length (h ! a)" and off: "?off \<le> l"
    using wf Slc by (auto simp: wf_buffer_def)
  have N: "Buffer_Next b n = Inr (Slc a (st + ?off) ?k (c - ?off), b\<lparr>boff := ?off + ?k\<rparr>)"
    using n Slc by (simp add: Buffer_Next_def Buffer_Len_def Let_def)
  have 1: "wf_slice h (Slc a (st + ?off) ?k (c - ?off))" using a lc stc off by auto
  have 2: "wf_buffer h (b\<lparr>boff := ?off + ?k\<rparr>)" using wf Slc off by (auto simp: wf_buffer_def)
  have 3: "contents h (Slc a (st + ?off) ?k (c - ?off)) = take (nat n) (contents h (Buffer_Bytes b))"
    using Slc by (simp add: Buffer_Bytes_def min.commute)
  have 4: "contents h (Buffer_Bytes (b\<lparr>boff := ?off + ?k\<rparr>)) = drop (nat n) (contents h (Buffer_Bytes b))"
  proof (cases "nat n \<le> l - ?off")
    case True
    then show ?thesis using Slc off by (simp add: Buffer_Bytes_def drop_take min_def add_ac)
  next
    case False
    then show ?thesis using Slc off stc lc by (simp add: Buffer_Bytes_def min_def)
  qed
  show ?thesis using N 1 2 3 4 by simp
qed

lemma Buffer_ReadByte_spec:
  assumes wf: "wf_buffer h b"
  shows "\<exists>e b'. Buffer_ReadByte b = (e, b') \<and> wf_buffer h b'
           \<and> e = (if contents h (Buffer_Bytes b) = [] then Some EOF else None)
           \<and> contents h (Buffer_Bytes b') = tl (contents h (Buffer_Bytes b))"
proof (cases "bbuf b")
  case NilSlice
  then show ?thesis using wf
    by (auto simp: Buffer_ReadByte_def Buffer_Bytes_def Buffer_Reset_def wf_buffer_def)
next
  case (Slc a st l c)
  have a: "a < length h" and lc: "l \<le> c" and stc: "st + c \<le> length (h ! a)" and off: "boff b \<le> l"
    using wf Slc by (auto simp: wf_buffer_def)
  show ?thesis
  proof (cases "l \<le> boff b")
    case True
    then show ?thesis using Slc wf
      by (auto simp: Buffer_ReadByte_def Buffer_Bytes_def Buffer_Reset_def wf_buffer_def)
  next
    case False
    then have ne: "contents h (Buffer_Bytes b) \<noteq> []"
      using Slc stc lc by (auto simp: Buffer_Bytes_def)
    have "take (l - Suc (boff b)) (drop (Suc (st + boff b)) (h ! a)) = tl (take (l - boff b) (drop (st + boff b) (h ! a)))"
      by (simp add: tl_take tl_drop drop_Suc)
    then show ?thesis using False Slc wf ne
      by (auto simp: Buffer_ReadByte_def Buffer_Bytes_def wf_buffer_def)
  qed
qed

lemma wf_pool_buf_update: "wf_buffer h b' \<Longrightarrow> unread h (p\<lparr>buf := b'\<rparr>) = contents h (Buffer_Bytes b')"
  by (simp add: unread_def)

lemma bufferedPrefix_spec:
  assumes wf: "wf_buffer h (buf p)"
  shows "\<exists>p'. bufferedPrefix h p pre =
           Inr (if take (length pre) (unread h p) \<noteq> pre
                then Some (PrefixMismatch pre (take (length pre) (unread h p))) else None, p')
         \<and> wf_buffer h (buf p') \<and> scratch p' = scratch p
         \<and> unread h p' = drop (length pre) (unread h p)"
proof -
  obtain r b' where N: "Buffer_Next (buf p) (int (length pre)) = Inr (r, b')"
    and 1: "wf_buffer h b'" "contents h r = take (length pre) (contents h (Buffer_Bytes (buf p)))"
    "contents h (Buffer_Bytes b') = drop (length pre) (contents h (Buffer_Bytes (buf p)))"
    using Buffer_Next_spec[OF wf, of "int (length pre)"] by auto
  show ?thesis using N 1 by (auto simp: bufferedPrefix_def unread_def)
qed

lemma IndexByte_None: "IndexByte s c = None \<longleftrightarrow> c \<notin> set s"
  by (simp add: IndexByte_def)

lemma line_of_noCR: "CR \<notin> set u \<Longrightarrow> line_of u = u"
  by (auto simp: line_of_def)

lemma line_of_CR: "CR \<in> set u \<Longrightarrow> length (line_of u) < length u \<and> u ! length (line_of u) = CR"
  unfolding line_of_def by (induction u) auto

lemma readSlice_CR_spec:
  assumes wf: "wf_buffer h (buf p)"
  shows "\<exists>r p'. readSlice h p CR = Inr (r, if CR \<in> set (unread h p) then None else Some EOF, p')
         \<and> wf_buffer h (buf p') \<and> wf_slice h r \<and> scratch p' = scratch p
         \<and> contents h r = take (length (line_of (unread h p)) + 1) (unread h p)
         \<and> unread h p' = drop (length (line_of (unread h p)) + 1) (unread h p)"
proof -
  let ?u = "unread h p"
  let ?i = "length (line_of ?u)"
  have wfB: "wf_slice h (Buffer_Bytes (buf p))"
    using wf by (cases "bbuf (buf p)") (auto simp: wf_buffer_def Buffer_Bytes_def)
  have ul: "length ?u = slen (Buffer_Bytes (buf p))"
    unfolding unread_def using wfB by (rule contents_length)
  obtain r b' where N: "Buffer_Next (buf p) (int ?i + 1) = Inr (r, b')"
    and 1: "wf_buffer h b'" "wf_slice h r" "contents h r = take (?i + 1) ?u"
    "contents h (Buffer_Bytes b') = drop (?i + 1) ?u"
    using Buffer_Next_spec[OF wf, of "int ?i + 1"] by (auto simp: unread_def nat_add_distrib)
  show ?thesis
  proof (cases "CR \<in> set ?u")
    case True
    then have "IndexByte ?u CR = Some ?i" by (simp add: IndexByte_def line_of_def)
    then show ?thesis using N 1 True
      by (auto simp: readSlice_def unread_def Let_def)
  next
    case False
    then have "IndexByte ?u CR = None" by (simp add: IndexByte_def)
    moreover have "?i = slen (Buffer_Bytes (buf p))" using False ul by (simp add: line_of_noCR)
    ultimately show ?thesis using N 1 False
      by (auto simp: readSlice_def unread_def Let_def)
  qed
qed

lemma slice_range_prefix:
  assumes "wf_slice h r" "k \<le> slen r"
  shows "wf_slice h (slice_range r 0 k) \<and> contents h (slice_range r 0 k) = take k (contents h r)"
  using assms by (cases r) (simp_all add: min_absorb2)

lemma bufferedBytesDelim_val:
  assumes wf: "wf_buffer h (buf p)"
  shows "\<exists>r e p' l rest. bufferedBytesDelim h p = Inr (r, e, p')
         \<and> line_val (unread h p) = (l, e, rest)
         \<and> wf_buffer h (buf p') \<and> wf_slice h r \<and> scratch p' = scratch p
         \<and> unread h p' = rest
         \<and> (case l of None \<Rightarrow> r = NilSlice | Some s \<Rightarrow> contents h r = s \<and> r \<noteq> NilSlice)"
proof -
  define u where "u = unread h p"
  define i where "i = length (line_of u)"
  obtain r0 p1 where R: "readSlice h p CR = Inr (r0, if CR \<in> set u then None else Some EOF, p1)"
    and 1: "wf_buffer h (buf p1)" "wf_slice h r0" "scratch p1 = scratch p"
    "contents h r0 = take (i + 1) u" "unread h p1 = drop (i + 1) u"
    using readSlice_CR_spec[OF wf] unfolding u_def i_def by blast
  show ?thesis
  proof (cases "CR \<in> set u")
    case False
    then have "unread h p1 = []" using 1(5) by (simp add: line_of_noCR i_def)
    moreover have "bufferedBytesDelim h p = Inr (NilSlice, Some EOF, p1)"
      using False R by (simp add: bufferedBytesDelim_def)
    moreover have "line_val u = (None, Some EOF, [])"
      using False by (simp add: line_val_def)
    ultimately show ?thesis using 1(1,3) unfolding u_def[symmetric] by simp
  next
    case True
    then have lt: "i < length u" using line_of_CR i_def by blast
    have sl: "slen r0 = i + 1"
      using contents_length[OF 1(2)] 1(4) lt by simp
    obtain e b' where B: "Buffer_ReadByte (buf p1) = (e, b')" and 2: "wf_buffer h b'"
      "e = (if contents h (Buffer_Bytes (buf p1)) = [] then Some EOF else None)"
      "contents h (Buffer_Bytes b') = tl (contents h (Buffer_Bytes (buf p1)))"
      using Buffer_ReadByte_spec[OF 1(1)] by blast
    have e: "e = (if i + 2 \<le> length u then None else Some EOF)"
      using 2(2) 1(5) by (auto simp: unread_def)
    have rest: "unread h (p1\<lparr>buf := b'\<rparr>) = drop (i + 2) u"
      using 2(3) 1(5) by (simp add: unread_def tl_drop drop_Suc)
    have "take i u = line_of u" unfolding line_of_def i_def by (rule takeWhile_eq_take[symmetric])
    moreover have "take i (contents h r0) = take i u" unfolding 1(4) by simp
    ultimately have c: "contents h (slice_range r0 0 i) = line_of u" "wf_slice h (slice_range r0 0 i)"
      using slice_range_prefix[OF 1(2), of i] sl by simp_all
    have nn: "slice_range r0 0 i \<noteq> NilSlice" using sl by (cases r0) auto
    have "bufferedBytesDelim h p = Inr (slice_range r0 0 i, e, p1\<lparr>buf := b'\<rparr>)"
      using True R B sl by (simp add: bufferedBytesDelim_def)
    moreover have "line_val u = (Some (line_of u), e, drop (i + 2) u)"
      using True e by (simp add: line_val_def i_def)
    ultimately show ?thesis using rest c nn 2(1) 1(3) unfolding u_def[symmetric] by simp
  qed
qed

lemma bufferedIntDelim_val:
  assumes wf: "wf_buffer h (buf p)"
  shows "\<exists>n e p' rest. bufferedIntDelim h p = Inr (n, e, p')
         \<and> int_val (unread h p) = (n, e, rest)
         \<and> wf_buffer h (buf p') \<and> scratch p' = scratch p \<and> unread h p' = rest"
proof -
  obtain r e p' l rest where B: "bufferedBytesDelim h p = Inr (r, e, p')"
    and L: "line_val (unread h p) = (l, e, rest)"
    and 1: "wf_buffer h (buf p')" "scratch p' = scratch p" "unread h p' = rest"
    "case l of None \<Rightarrow> r = NilSlice | Some s \<Rightarrow> contents h r = s \<and> r \<noteq> NilSlice"
    using bufferedBytesDelim_val[OF wf] by blast
  have c: "contents h r = (case l of None \<Rightarrow> [] | Some s \<Rightarrow> s)"
    using 1(4) by (cases l) auto
  show ?thesis
  proof (cases e)
    case (Some x)
    then show ?thesis using B L 1 by (simp add: bufferedIntDelim_def int_val_def)
  next
    case None
    then show ?thesis using B L 1 c
      by (auto simp: bufferedIntDelim_def int_val_def split: prod.splits)
  qed
qed

text \<open>The common start of every decoder: reset, then write the input\<close>

lemma decode_start:
  assumes wf: "wf_pool_opt h pp" and b: "wf_bytes h b"
  shows "\<exists>h1 p1. pwrite g b (h, Pool_get pp) = (h1, p1) \<and> step (h, Pool_get pp) (h1, p1) (bcontents h b)
         \<and> wf_buffer h1 (buf p1) \<and> unread h1 p1 = bcontents h b"
proof -
  note G = Pool_get_wf[OF wf]
  obtain h1 p1 where W: "pwrite g b (h, Pool_get pp) = (h1, p1)" by fastforce
  have s: "step (h, Pool_get pp) (h1, p1) (bcontents h b)"
    using pwrite_spec[OF G(1) G(2) b W] by simp
  have "contents h (bbuf (buf (Pool_get pp))) = []"
    using G contents_length[of h "bbuf (buf (Pool_get pp))"] by (simp add: wf_pool_def wf_buffer_def)
  then have "unread h1 p1 = bcontents h b"
    using s by (simp add: step_def unread_def Buffer_Bytes_off0)
  then show ?thesis using W s by (auto simp: step_def wf_pool_def)
qed

lemma bufferedPrefix_val:
  assumes wf: "wf_buffer h (buf p)"
  shows "\<exists>p'. bufferedPrefix h p pre = Inr (fst (prefix_val pre (unread h p)), p')
         \<and> wf_buffer h (buf p') \<and> scratch p' = scratch p
         \<and> unread h p' = snd (prefix_val pre (unread h p))"
  using bufferedPrefix_spec[OF wf, of pre] by (simp add: prefix_val_def)

lemma SimpleString_UnmarshalRESP_val:
  assumes wf: "wf_pool_opt h pp" and b: "wf_bytes h b"
  shows "\<exists>h1 p' S' e rest. SimpleString_UnmarshalRESP g h pp S b = Inr (h1, p', S', e)
       \<and> unread h1 p' = rest \<and> frame h h1 (writable (Pool_get pp))
       \<and> (case prefix_val simpleStrPrefix (bcontents h b) of
            (Some pe, r1) \<Rightarrow> S' = S \<and> e = Some pe \<and> rest = r1
          | (None, r1) \<Rightarrow>
              (case line_val r1 of (l, le, r2) \<Rightarrow> e = le \<and> rest = r2 \<and>
                 (case l of None \<Rightarrow> S' = Mem NilSlice
                  | Some s \<Rightarrow> bcontents h1 S' = s \<and> \<not> is_nil S')))"
proof -
  obtain h1 p1 where W: "pwrite g b (h, Pool_get pp) = (h1, p1)"
    and st: "step (h, Pool_get pp) (h1, p1) (bcontents h b)"
    and w1: "wf_buffer h1 (buf p1)" and u1: "unread h1 p1 = bcontents h b"
    using decode_start[OF wf b] by blast
  have fr: "frame h h1 (writable (Pool_get pp))" using st by (simp add: step_def)
  obtain pe r1 where PV: "prefix_val simpleStrPrefix (bcontents h b) = (pe, r1)" by fastforce
  obtain p2 where P: "bufferedPrefix h1 p1 simpleStrPrefix = Inr (pe, p2)"
    and w2: "wf_buffer h1 (buf p2)" and u2: "unread h1 p2 = r1"
    using bufferedPrefix_val[OF w1, of simpleStrPrefix] u1 PV by auto
  show ?thesis
  proof (cases pe)
    case (Some x)
    then show ?thesis using W P PV u2 fr by (simp add: SimpleString_UnmarshalRESP_def)
  next
    case None
    obtain r e p3 l rest where B: "bufferedBytesDelim h1 p2 = Inr (r, e, p3)"
      and L: "line_val r1 = (l, e, rest)" and u3: "unread h1 p3 = rest"
      and c: "case l of None \<Rightarrow> r = NilSlice | Some s \<Rightarrow> contents h1 r = s \<and> r \<noteq> NilSlice"
      using bufferedBytesDelim_val[OF w2] u2 by blast
    have "case l of None \<Rightarrow> Mem r = Mem NilSlice | Some s \<Rightarrow> bcontents h1 (Mem r) = s \<and> \<not> is_nil (Mem r)"
      using c by (cases l) (auto simp: is_nil_def)
    then show ?thesis using None W P PV B L u3 fr by (simp add: SimpleString_UnmarshalRESP_def)
  qed
qed

lemma Error_UnmarshalRESP_val:
  assumes wf: "wf_pool_opt h pp" and b: "wf_bytes h b"
  shows "\<exists>h1 p' E' e rest. Error_UnmarshalRESP g h pp E b = Inr (h1, p', E', e)
       \<and> unread h1 p' = rest \<and> frame h h1 (writable (Pool_get pp))
       \<and> (case prefix_val errPrefix (bcontents h b) of
            (Some pe, r1) \<Rightarrow> E' = E \<and> e = Some pe \<and> rest = r1
          | (None, r1) \<Rightarrow>
              (case line_val r1 of (l, le, r2) \<Rightarrow> e = le \<and> rest = r2 \<and>
                 E' = Some (case l of None \<Rightarrow> [] | Some s \<Rightarrow> s)))"
proof -
  obtain h1 p1 where W: "pwrite g b (h, Pool_get pp) = (h1, p1)"
    and st: "step (h, Pool_get pp) (h1, p1) (bcontents h b)"
    and w1: "wf_buffer h1 (buf p1)" and u1: "unread h1 p1 = bcontents h b"
    using decode_start[OF wf b] by blast
  have fr: "frame h h1 (writable (Pool_get pp))" using st by (simp add: step_def)
  obtain pe r1 where PV: "prefix_val errPrefix (bcontents h b) = (pe, r1)" by fastforce
  obtain p2 where P: "bufferedPrefix h1 p1 errPrefix = Inr (pe, p2)"
    and w2: "wf_buffer h1 (buf p2)" and u2: "unread h1 p2 = r1"
    using bufferedPrefix_val[OF w1, of errPrefix] u1 PV by auto
  show ?thesis
  proof (cases pe)
    case (Some x)
    then show ?thesis using W P PV u2 fr by (simp add: Error_UnmarshalRESP_def)
  next
    case None
    obtain r e p3 l rest where B: "bufferedBytesDelim h1 p2 = Inr (r, e, p3)"
      and L: "line_val r1 = (l, e, rest)" and u3: "unread h1 p3 = rest"
      and c: "case l of None \<Rightarrow> r = NilSlice | Some s \<Rightarrow> contents h1 r = s \<and> r \<noteq> NilSlice"
      using bufferedBytesDelim_val[OF w2] u2 by blast
    have "contents h1 r = (case l of None \<Rightarrow> [] | Some s \<Rightarrow> s)"
      using c by (cases l) auto
    then show ?thesis using None W P PV B L u3 fr by (simp add: Error_UnmarshalRESP_def)
  qed
qed

lemma int_decoder_val:
  assumes wf: "wf_pool_opt h pp" and b: "wf_bytes h b"
  shows "\<exists>h1 p' I' e rest.
         (case pwrite g b (h, Pool_get pp) of (h1, p1) \<Rightarrow>
           (case bufferedPrefix h1 p1 pre of
              Inl pn \<Rightarrow> Inl pn
            | Inr (Some err, p2) \<Rightarrow> Inr (h1, p2, I, Some err)
            | Inr (None, p2) \<Rightarrow>
                (case bufferedIntDelim h1 p2 of
                   Inl pn \<Rightarrow> Inl pn
                 | Inr (n, err, p3) \<Rightarrow> Inr (h1, p3, n, err)))) = Inr (h1, p', I', e)
       \<and> unread h1 p' = rest \<and> frame h h1 (writable (Pool_get pp))
       \<and> (case prefix_val pre (bcontents h b) of
            (Some pe, r1) \<Rightarrow> I' = I \<and> e = Some pe \<and> rest = r1
          | (None, r1) \<Rightarrow> int_val r1 = (I', e, rest))"
proof -
  obtain h1 p1 where W: "pwrite g b (h, Pool_get pp) = (h1, p1)"
    and st: "step (h, Pool_get pp) (h1, p1) (bcontents h b)"
    and w1: "wf_buffer h1 (buf p1)" and u1: "unread h1 p1 = bcontents h b"
    using decode_start[OF wf b] by blast
  have fr: "frame h h1 (writable (Pool_get pp))" using st by (simp add: step_def)
  obtain pe r1 where PV: "prefix_val pre (bcontents h b) = (pe, r1)" by fastforce
  obtain p2 where P: "bufferedPrefix h1 p1 pre = Inr (pe, p2)"
    and w2: "wf_buffer h1 (buf p2)" and u2: "unread h1 p2 = r1"
    using bufferedPrefix_val[OF w1, of pre] u1 PV by auto
  show ?thesis
  proof (cases pe)
    case (Some x)
    then show ?thesis using W P PV u2 fr by simp
  next
    case None
    obtain n e p3 rest where B: "bufferedIntDelim h1 p2 = Inr (n, e, p3)"
      and L: "int_val r1 = (n, e, rest)" and u3: "unread h1 p3 = rest"
      using bufferedIntDelim_val[OF w2] u2 by blast
    then show ?thesis using None W P PV B L u3 fr by simp
  qed
qed

lemmas Int_UnmarshalRESP_val = int_decoder_val[where pre=intPrefix, folded Int_UnmarshalRESP_def]

lemmas ArrayHeader_UnmarshalRESP_val = int_decoder_val[where pre=arrayPrefix, folded ArrayHeader_UnmarshalRESP_def]

lemma BulkString_UnmarshalRESP_val:
  assumes wf: "wf_pool_opt h pp" and b: "wf_bytes h bb"
    and B0: "B = Mem NilSlice \<or> (\<exists>s. B = Ext s) \<or> bulk_early (bcontents h bb)"
  shows "\<exists>h1. frame h h1 (writable (Pool_get pp)) \<and>
          (case BulkString_val B (bcontents h bb) of
             Inl pn \<Rightarrow> BulkString_UnmarshalRESP g h pp B bb = Inl pn
           | Inr (B', e, rest) \<Rightarrow>
               (\<exists>p'. BulkString_UnmarshalRESP g h pp B bb = Inr (h1, p', B', e)
                    \<and> unread h1 p' = rest))"
proof -
  obtain h1 p1 where W: "pwrite g bb (h, Pool_get pp) = (h1, p1)"
    and st: "step (h, Pool_get pp) (h1, p1) (bcontents h bb)"
    and w1: "wf_buffer h1 (buf p1)" and u1: "unread h1 p1 = bcontents h bb"
    using decode_start[OF wf b] by blast
  have fr: "frame h h1 (writable (Pool_get pp))" using st by (simp add: step_def)
  obtain pe r1 where PV: "prefix_val bulkStrPrefix (bcontents h bb) = (pe, r1)" by fastforce
  obtain p2 where P: "bufferedPrefix h1 p1 bulkStrPrefix = Inr (pe, p2)"
    and w2: "wf_buffer h1 (buf p2)" and u2: "unread h1 p2 = r1"
    using bufferedPrefix_val[OF w1, of bulkStrPrefix] u1 PV by auto
  have "case BulkString_val B (bcontents h bb) of
             Inl pn \<Rightarrow> BulkString_UnmarshalRESP g h pp B bb = Inl pn
           | Inr (B', e, rest) \<Rightarrow>
               (\<exists>p'. BulkString_UnmarshalRESP g h pp B bb = Inr (h1, p', B', e)
                    \<and> unread h1 p' = rest)"
  proof (cases pe)
    case (Some x)
    then show ?thesis using W P PV u2
      by (simp add: BulkString_UnmarshalRESP_def BulkString_val_def)
  next
    case None
    obtain n e p3 r2 where I: "bufferedIntDelim h1 p2 = Inr (n, e, p3)"
      and L: "int_val r1 = (n, e, r2)" and u3: "unread h1 p3 = r2"
      and w3: "wf_buffer h1 (buf p3)"
      using bufferedIntDelim_val[OF w2] u2 by blast
    show ?thesis
    proof (cases e)
      case (Some x)
      then show ?thesis using None W P PV I L u3
        by (simp add: BulkString_UnmarshalRESP_def BulkString_val_def)
    next
      case eN: None
      show ?thesis
      proof (cases "n = - 1")
        case True
        then show ?thesis using eN None W P PV I L u3
          by (simp add: BulkString_UnmarshalRESP_def BulkString_val_def)
      next
        case n1: False
        have B: "B = Mem NilSlice \<or> (\<exists>s. B = Ext s)"
          using B0 n1 eN None PV L by (auto simp: bulk_early_def)
        show ?thesis
        proof (cases "sint n < 0")
          case True
          then show ?thesis using n1 eN None W P PV I L B
            by (auto simp: BulkString_UnmarshalRESP_def BulkString_val_def Let_def
                           Buffer_Next_def is_nil_def)
        next
          case False
          define k where "k = nat (sint n)"
          define old where "old = (case B of Ext s \<Rightarrow> s | Mem s \<Rightarrow> [])"
          have B1: "(if is_nil B then Ext [] else B) = Ext old"
            using B by (auto simp: old_def is_nil_def)
          obtain r b4 where N: "Buffer_Next (buf p3) (sint n) = Inr (r, b4)"
            and w4: "wf_buffer h1 b4" and c4: "contents h1 r = take k r2"
            and u4: "contents h1 (Buffer_Bytes b4) = drop k r2"
            using Buffer_Next_spec[OF w3, of "sint n"] False u3
            by (auto simp: k_def unread_def)
          obtain d b5 where N2: "Buffer_Next b4 2 = Inr (d, b5)"
            and c5: "contents h1 d = take 2 (drop k r2)"
            and u5: "contents h1 (Buffer_Bytes b5) = drop 2 (drop k r2)"
            using Buffer_Next_spec[OF w4, of 2] u4 by auto
          have A: "bytes_append g h1 (Ext old) (take k r2) = (h1, Ext (old @ take k r2))"
            by (simp add: bytes_append_def)
          have V: "BulkString_val B (bcontents h bb) =
                (if int (length (old @ take k r2)) \<noteq> sint n
                 then Inr (Ext (old @ take k r2), Some (BulkLength (sint n) (int (length (old @ take k r2)))), drop k r2)
                 else if take 2 (drop k r2) \<noteq> delim
                 then Inr (Ext (old @ take k r2), Some (BulkDelim (take 2 (drop k r2))), drop 2 (drop k r2))
                 else Inr (Ext (old @ take k r2), None, drop 2 (drop k r2)))"
            using False n1 eN None PV L
            by (simp add: BulkString_val_def Let_def k_def old_def)
          have U: "BulkString_UnmarshalRESP g h pp B bb =
                (if int (length (old @ take k r2)) \<noteq> sint n
                 then Inr (h1, p3\<lparr>buf := b4\<rparr>, Ext (old @ take k r2), Some (BulkLength (sint n) (int (length (old @ take k r2)))))
                 else if take 2 (drop k r2) \<noteq> delim
                 then Inr (h1, p3\<lparr>buf := b5\<rparr>, Ext (old @ take k r2), Some (BulkDelim (take 2 (drop k r2))))
                 else Inr (h1, p3\<lparr>buf := b5\<rparr>, Ext (old @ take k r2), None))"
            using False n1 eN None W P I N N2 c4 c5 A B1
            by (simp add: BulkString_UnmarshalRESP_def Let_def)
          show ?thesis unfolding V U using u4 u5 by (simp add: unread_def)
        qed
      qed
    qed
  qed
  then show ?thesis using fr by blast
qed

section \<open>Round trips of the scalar codecs\<close>

lemma enc_ok_decode_pool:
  assumes "enc_ok h pp (h1, p1, r, e) d"
  shows "wf_pool_opt h1 (dpool pp p1) \<and> wf_bytes h1 r \<and> bcontents h1 r = d \<and> e = None"
  using assms
  by (cases pp) (auto simp: enc_ok_def dpool_def wf_pool_opt_def step_def wf_pool_def wf_buffer_def)

lemma line_of_append: "CR \<notin> set s \<Longrightarrow> line_of (s @ CR # xs) = s"
  unfolding line_of_def by (subst takeWhile_append2) auto

lemma line_val_line: "CR \<notin> set s \<Longrightarrow> line_val (s @ CR # c # rest) = (Some s, None, rest)"
  by (simp add: line_val_def line_of_append)

lemma line_val_delim: "CR \<notin> set s \<Longrightarrow> line_val (s @ delim @ rest) = (Some s, None, rest)"
  by (simp add: delim_def line_val_line)

lemma int_val_itoa: "int_val (itoa (sint (w :: 64 word)) @ delim @ rest) = (w, None, rest)"
  by (simp add: int_val_def line_val_delim CR_notin_itoa ParseInt_itoa_sint)

lemma int_val_itoa_nat: "n < 2 ^ 63 \<Longrightarrow> int_val (itoa (int n) @ delim @ rest) = (word_of_nat n, None, rest)"
  using ParseInt_itoa[of "int n"]
  by (simp add: int_val_def line_val_delim CR_notin_itoa)

lemma line_val_delim0: "CR \<notin> set s \<Longrightarrow> line_val (s @ delim) = (Some s, None, [])"
  using line_val_delim[of s "[]"] by simp

lemma int_val_itoa0: "int_val (itoa (sint (w :: 64 word)) @ delim) = (w, None, [])"
  using int_val_itoa[of w "[]"] by simp

lemma prefix_val_ok: "prefix_val pre (pre @ u) = (None, u)"
  by (simp add: prefix_val_def)

lemma rt_SimpleString_holds:
  assumes wf: "wf_pool_opt h pp" and s: "CR \<notin> set s"
  shows "rt_SimpleString g h pp s"
proof -
  obtain h1 p1 r e where M: "SimpleString_MarshalRESP g h pp (Ext s) = (h1, p1, r, e)"
    by (metis prod_cases4)
  have "enc_ok h pp (h1, p1, r, e) (simpleStrPrefix @ s @ delim)"
    using SimpleString_MarshalRESP_spec[OF wf, of "Ext s" g] M by simp
  from enc_ok_decode_pool[OF this]
  have 1: "wf_pool_opt h1 (dpool pp p1)" "wf_bytes h1 r" "bcontents h1 r = simpleStrPrefix @ s @ delim" "e = None"
    by simp_all
  have pv: "prefix_val simpleStrPrefix (bcontents h1 r) = (None, s @ delim @ [])"
    unfolding 1(3) by (simp add: prefix_val_ok)
  show ?thesis
    using SimpleString_UnmarshalRESP_val[OF 1(1,2), of g "Mem NilSlice"] M 1(4) s
    unfolding pv by (auto simp: rt_SimpleString_def line_val_delim0)
qed

lemma rt_Error_holds:
  assumes wf: "wf_pool_opt h pp" and s: "CR \<notin> set m"
  shows "rt_Error g h pp m"
proof -
  obtain h1 p1 r e where M: "Error_MarshalRESP g h pp (Some m) = (h1, p1, r, e)"
    by (metis prod_cases4)
  have "enc_ok h pp (h1, p1, r, e) (errPrefix @ m @ delim)"
    using Error_MarshalRESP_spec[OF wf, of g "Some m"] M by simp
  from enc_ok_decode_pool[OF this]
  have 1: "wf_pool_opt h1 (dpool pp p1)" "wf_bytes h1 r" "bcontents h1 r = errPrefix @ m @ delim" "e = None"
    by simp_all
  have pv: "prefix_val errPrefix (bcontents h1 r) = (None, m @ delim @ [])"
    unfolding 1(3) by (simp add: prefix_val_ok)
  show ?thesis
    using Error_UnmarshalRESP_val[OF 1(1,2), of g None] M 1(4) s
    unfolding pv by (auto simp: rt_Error_def line_val_delim0)
qed

lemma rt_Int_holds:
  assumes wf: "wf_pool_opt h pp"
  shows "rt_Int g h pp i"
proof -
  obtain h1 p1 r e where M: "Int_MarshalRESP g h pp i = (h1, p1, r, e)"
    by (metis prod_cases4)
  have "enc_ok h pp (h1, p1, r, e) (intPrefix @ itoa (sint i) @ delim)"
    using Int_MarshalRESP_spec[OF wf, of g i] M by simp
  from enc_ok_decode_pool[OF this]
  have 1: "wf_pool_opt h1 (dpool pp p1)" "wf_bytes h1 r" "bcontents h1 r = intPrefix @ itoa (sint i) @ delim" "e = None"
    by simp_all
  have pv: "prefix_val intPrefix (bcontents h1 r) = (None, itoa (sint i) @ delim @ [])"
    unfolding 1(3) by (simp add: prefix_val_ok)
  show ?thesis
    using Int_UnmarshalRESP_val[OF 1(1,2), of g 0] M 1(4)
    unfolding pv by (auto simp: rt_Int_def int_val_itoa0)
qed

lemma rt_ArrayHeader_holds:
  assumes wf: "wf_pool_opt h pp"
  shows "rt_ArrayHeader g h pp i"
proof -
  obtain h1 p1 r e where M: "ArrayHeader_MarshalRESP g h pp i = (h1, p1, r, e)"
    by (metis prod_cases4)
  have "enc_ok h pp (h1, p1, r, e) (arrayPrefix @ itoa (sint i) @ delim)"
    using ArrayHeader_MarshalRESP_spec[OF wf, of g i] M by simp
  from enc_ok_decode_pool[OF this]
  have 1: "wf_pool_opt h1 (dpool pp p1)" "wf_bytes h1 r" "bcontents h1 r = arrayPrefix @ itoa (sint i) @ delim" "e = None"
    by simp_all
  have pv: "prefix_val arrayPrefix (bcontents h1 r) = (None, itoa (sint i) @ delim @ [])"
    unfolding 1(3) by (simp add: prefix_val_ok)
  show ?thesis
    using ArrayHeader_UnmarshalRESP_val[OF 1(1,2), of g 0] M 1(4)
    unfolding pv by (auto simp: rt_ArrayHeader_def int_val_itoa0)
qed

lemma sint_of_nat64:
  assumes "n < 2 ^ 63"
  shows "sint (word_of_nat n :: 64 word) = int n"
proof -
  have "sint (word_of_nat n :: 64 word) = sint (word_of_int (int n) :: 64 word)"
    by simp
  also have "\<dots> = (int n + 2 ^ 63) mod 2 ^ 64 - 2 ^ 63"
    by (subst int_word_sint) simp
  also have "(int n + 2 ^ 63) mod 2 ^ 64 = int n + 2 ^ 63"
    using assms by (intro mod_pos_pos_trivial) auto
  finally show ?thesis by simp
qed

lemma of_nat64_not_minus1:
  assumes "n < 2 ^ 63"
  shows "(word_of_nat n :: 64 word) \<noteq> - 1"
proof
  assume "(word_of_nat n :: 64 word) = - 1"
  then have "sint (word_of_nat n :: 64 word) = sint (- 1 :: 64 word)" by simp
  then show False using sint_of_nat64[OF assms] by simp
qed

lemma take_drop_delim: "take 2 delim = delim" "drop 2 delim = []" "length delim = 2"
  by (simp_all add: delim_def)

lemma BulkString_val_wellformed:
  assumes n: "length b < 2 ^ 63"
  shows "BulkString_val B (bulkStrPrefix @ itoa (int (length b)) @ delim @ b @ delim) =
     (let old = (case B of Ext s \<Rightarrow> s | Mem s \<Rightarrow> []) in
      if old \<noteq> []
      then Inr (Ext (old @ b), Some (BulkLength (int (length b)) (int (length old + length b))), delim)
      else Inr (Ext b, None, []))"
proof -
  have iv: "int_val (itoa (int (length b)) @ delim @ b @ delim) = (word_of_nat (length b), None, b @ delim)"
    using int_val_itoa_nat[OF n] by simp
  show ?thesis
    using of_nat64_not_minus1[OF n] sint_of_nat64[OF n]
    by (simp add: BulkString_val_def prefix_val_ok iv Let_def take_drop_delim)
qed

lemma rt_BulkString_holds:
  assumes wf: "wf_pool_opt h pp" and n: "length b < 2 ^ 63"
  shows "rt_BulkString g h pp (Ext b)"
proof -
  let ?d = "bulkStrPrefix @ itoa (int (length b)) @ delim @ b @ delim"
  obtain h1 p1 r e where M: "BulkString_MarshalRESP g h pp (Ext b) = (h1, p1, r, e)"
    by (metis prod_cases4)
  have "enc_ok h pp (h1, p1, r, e) ?d"
    using BulkString_MarshalRESP_spec[OF wf, of "Ext b" g] M by (simp add: is_nil_def)
  from enc_ok_decode_pool[OF this]
  have 1: "wf_pool_opt h1 (dpool pp p1)" "wf_bytes h1 r" "bcontents h1 r = ?d" "e = None"
    by simp_all
  have V: "BulkString_val (Mem NilSlice) (bcontents h1 r) = Inr (Ext b, None, [])"
    unfolding 1(3) using BulkString_val_wellformed[OF n, of "Mem NilSlice"] by simp
  show ?thesis
    using BulkString_UnmarshalRESP_val[OF 1(1,2), of "Mem NilSlice" g] M 1(4)
    unfolding V by (auto simp: rt_BulkString_def is_nil_def)
qed

lemma wf_pool_opt_dpool_Pool_of: "wf_pool_opt h pp \<Longrightarrow> wf_pool_opt h (dpool pp (Pool_of pp))"
  by (cases pp) (auto simp: dpool_def Pool_of_def wf_pool_opt_def)

lemma int_val_minus1: "int_val (''-1'' @ delim @ rest) = (- 1, None, rest)"
proof -
  have "itoa (- 1) = ''-1''" by code_simp
  then have "itoa (sint (- 1 :: 64 word)) = ''-1''" by simp
  then show ?thesis using int_val_itoa[of "- 1" rest] by simp
qed

lemma BulkString_val_nil: "BulkString_val B (''$-1'' @ delim @ rest) = Inr (Mem NilSlice, None, rest)"
  using int_val_minus1[of rest]
  by (simp add: BulkString_val_def prefix_val_def bulkStrPrefix_def)

lemma bulk_early_nil: "bulk_early (''$-1'' @ delim @ rest)"
  using int_val_minus1[of rest]
  by (simp add: bulk_early_def prefix_val_def bulkStrPrefix_def)

lemma rt_BulkString_nil:
  assumes wf: "wf_pool_opt h pp"
  shows "rt_BulkString g h pp (Mem NilSlice)"
proof -
  have V: "BulkString_val (Mem NilSlice) (bcontents h (Ext nilBulkString)) = Inr (Mem NilSlice, None, [])"
    using BulkString_val_nil[of "Mem NilSlice" "[]"] by (simp add: nilBulkString_def delim_def)
  show ?thesis
    using BulkString_UnmarshalRESP_val[OF wf_pool_opt_dpool_Pool_of[OF wf], of "Ext nilBulkString" "Mem NilSlice" g]
    unfolding V by (auto simp: rt_BulkString_def BulkString_MarshalRESP_nil is_nil_def)
qed

section \<open>Claims about the scalar codecs\<close>

text \<open>
  C1. For every kind of the wire grammar, decoding the bytes that encoding
  produced gives the value back: a simple string and an error message without a
  CR, every 64-bit integer (zero and the negative ones among them), every bulk
  string payload (empty, or with CR LF inside), the nil bulk string, which comes
  back nil, and every array header (\<open>-1\<close> among them). The encoder works with any
  well-formed pool or none, the decoder with the same pool pointer and a zero
  receiver.
\<close>

theorem roundtrip_all_kinds:
  assumes "wf_pool_opt h pp"
  shows "(CR \<notin> set s \<longrightarrow> rt_SimpleString g h pp s)
       \<and> (CR \<notin> set m \<longrightarrow> rt_Error g h pp m)
       \<and> rt_Int g h pp i
       \<and> (length b < 2 ^ 63 \<longrightarrow> rt_BulkString g h pp (Ext b))
       \<and> rt_BulkString g h pp (Mem NilSlice)
       \<and> rt_ArrayHeader g h pp n"
  using assms
  by (simp add: rt_SimpleString_holds rt_Error_holds rt_Int_holds rt_BulkString_holds
                rt_BulkString_nil rt_ArrayHeader_holds)

theorem roundtrip_all_kinds_witness:
  "wf_pool_opt [] None \<and> CR \<notin> set ''''
   \<and> length (''foo'' @ [CR, LF] @ ''bar'') < (2::nat) ^ 63
   \<and> rt_SimpleString go_growth [] None ''''
   \<and> rt_Error go_growth [] None ''''
   \<and> rt_Int go_growth [] None 0
   \<and> rt_Int go_growth [] None (- 5)
   \<and> rt_BulkString go_growth [] None (Ext (''foo'' @ [CR, LF] @ ''bar''))
   \<and> rt_BulkString go_growth [] None (Mem NilSlice)
   \<and> rt_ArrayHeader go_growth [] None (- 1)"
proof -
  have w: "wf_pool_opt [] None" by (simp add: wf_pool_opt_def)
  have l: "length (''foo'' @ [CR, LF] @ ''bar'') < (2::nat) ^ 63" by simp
  show ?thesis
    using w l
      roundtrip_all_kinds[OF w, where g=go_growth and s="''''" and m="''''" and i=0
        and b="''foo'' @ [CR, LF] @ ''bar''" and n="- 1"]
      roundtrip_all_kinds[OF w, where g=go_growth and s="''''" and m="''''" and i="- 5"
        and b="''''" and n="- 1"]
    by simp
qed

text \<open>
  C2. A nil bulk string marshals to the constant \<open>$-1\<close> CR LF with store and pool
  left as they are; an empty, non-nil one marshals to \<open>$0\<close> CR LF CR LF, which is
  a different byte string; and decoding a declared length of \<open>-1\<close> makes the
  destination nil and leaves everything after the header line unread.
\<close>

theorem bulk_nil_vs_empty:
  assumes "wf_pool_opt h pp" "wf_bytes h bb"
  shows "BulkString_MarshalRESP g h pp (Mem NilSlice) = (h, Pool_of pp, Ext (''$-1'' @ [CR, LF]), None)
       \<and> (\<exists>h1 p1 r. BulkString_MarshalRESP g h pp (Ext []) = (h1, p1, r, None)
             \<and> bcontents h1 r = ''$0'' @ [CR, LF] @ [CR, LF]
             \<and> bcontents h1 r \<noteq> ''$-1'' @ [CR, LF])
       \<and> (bcontents h bb = ''$-1'' @ [CR, LF] @ rest \<longrightarrow>
            (\<exists>h1 p1. BulkString_UnmarshalRESP g h pp B bb = Inr (h1, p1, Mem NilSlice, None)
               \<and> unread h1 p1 = rest))"
proof (intro conjI impI)
  show "BulkString_MarshalRESP g h pp (Mem NilSlice) = (h, Pool_of pp, Ext (''$-1'' @ [CR, LF]), None)"
    by (simp add: BulkString_MarshalRESP_nil nilBulkString_def)
next
  have z: "itoa 0 = ''0''" by code_simp
  obtain h1 p1 r e where M: "BulkString_MarshalRESP g h pp (Ext []) = (h1, p1, r, e)"
    by (metis prod_cases4)
  have "enc_ok h pp (h1, p1, r, e) (bulkStrPrefix @ itoa (int (blen (Ext []))) @ delim @ bcontents h (Ext []) @ delim)"
    using BulkString_MarshalRESP_spec[OF assms(1), where B="Ext []" and g=g] M by (simp add: is_nil_def)
  then have "e = None" "bcontents h1 r = ''$0'' @ [CR, LF] @ [CR, LF]"
    by (simp_all add: enc_ok_def z bulkStrPrefix_def delim_def)
  then show "\<exists>h1 p1 r. BulkString_MarshalRESP g h pp (Ext []) = (h1, p1, r, None)
             \<and> bcontents h1 r = ''$0'' @ [CR, LF] @ [CR, LF]
             \<and> bcontents h1 r \<noteq> ''$-1'' @ [CR, LF]"
    using M by simp
next
  assume u: "bcontents h bb = ''$-1'' @ [CR, LF] @ rest"
  have e: "bulk_early (bcontents h bb)"
    unfolding u using bulk_early_nil[of rest] by (simp add: delim_def)
  have V: "BulkString_val B (bcontents h bb) = Inr (Mem NilSlice, None, rest)"
    unfolding u using BulkString_val_nil[of B rest] by (simp add: delim_def)
  show "\<exists>h1 p1. BulkString_UnmarshalRESP g h pp B bb = Inr (h1, p1, Mem NilSlice, None)
               \<and> unread h1 p1 = rest"
    using BulkString_UnmarshalRESP_val[OF assms, where B=B and g=g] e unfolding V by auto
qed

theorem bulk_nil_vs_empty_witness:
  "wf_pool_opt [] None \<and> wf_bytes [] (Ext (''$-1'' @ [CR, LF] @ ''+x''))
   \<and> BulkString_MarshalRESP go_growth [] None (Mem NilSlice) = ([], Pool_of None, Ext (''$-1'' @ [CR, LF]), None)
   \<and> (\<exists>h1 p1. BulkString_UnmarshalRESP go_growth [] None (Ext ''old'') (Ext (''$-1'' @ [CR, LF] @ ''+x''))
          = Inr (h1, p1, Mem NilSlice, None) \<and> unread h1 p1 = ''+x'')"
proof -
  have w: "wf_pool_opt [] None" by (simp add: wf_pool_opt_def)
  have b: "wf_bytes [] (Ext (''$-1'' @ [CR, LF] @ ''+x''))" by simp
  show ?thesis
    using w b bulk_nil_vs_empty[OF w b, where g=go_growth and rest="''+x''" and B="Ext ''old''"] by simp
qed

lemma BulkString_val_truncated:
  "BulkString_val (Mem NilSlice) (''$3'' @ delim @ ''fo'') = Inr (Ext ''fo'', Some (BulkLength 3 2), [])"
proof -
  have i3: "itoa 3 = ''3''" by code_simp
  have iv: "int_val (''3'' @ delim @ ''fo'') = (word_of_nat 3, None, ''fo'')"
    using int_val_itoa_nat[of 3 "''fo''"] by (simp add: i3)
  have "(word_of_nat 3 :: 64 word) = 3" by simp
  then show ?thesis using iv
    by (simp add: BulkString_val_def prefix_val_def bulkStrPrefix_def Let_def)
qed

text \<open>
  C7. Decoding the truncated input \<open>$3\<close> CR LF \<open>fo\<close> as a bulk string returns
  (no panic) with the length error "expected 3 bytes but got 2"; the destination
  holds the two bytes that were there, and nothing is left to read.
\<close>

theorem truncated_bulk_fails:
  assumes "wf_pool_opt h pp"
  shows "\<exists>h1 p1 B'. BulkString_UnmarshalRESP g h pp (Mem NilSlice) (Ext (''$3'' @ [CR, LF] @ ''fo''))
            = Inr (h1, p1, B', Some (BulkLength 3 2))
          \<and> bcontents h1 B' = ''fo'' \<and> unread h1 p1 = []"
proof -
  have V: "BulkString_val (Mem NilSlice) (bcontents h (Ext (''$3'' @ [CR, LF] @ ''fo''))) = Inr (Ext ''fo'', Some (BulkLength 3 2), [])"
    using BulkString_val_truncated by (simp add: delim_def)
  show ?thesis
    using BulkString_UnmarshalRESP_val[OF assms, where bb="Ext (''$3'' @ [CR, LF] @ ''fo'')" and B="Mem NilSlice" and g=g]
    unfolding V by auto
qed

theorem truncated_bulk_fails_witness:
  "wf_pool_opt [] None
   \<and> (\<exists>h1 p1 B'. BulkString_UnmarshalRESP go_growth [] None (Mem NilSlice) (Ext (''$3'' @ [CR, LF] @ ''fo''))
            = Inr (h1, p1, B', Some (BulkLength 3 2))
          \<and> bcontents h1 B' = ''fo'' \<and> unread h1 p1 = [])"
proof -
  have w: "wf_pool_opt [] None" by (simp add: wf_pool_opt_def)
  show ?thesis using w truncated_bulk_fails[OF w, where g=go_growth] by simp
qed

lemma prefix_val_bad:
  "take (length pre) u \<noteq> pre \<Longrightarrow>
   prefix_val pre u = (Some (PrefixMismatch pre (take (length pre) u)), drop (length pre) u)"
  by (simp add: prefix_val_def)

lemma BulkString_prefix_mismatch:
  assumes "wf_pool_opt h pp" "wf_bytes h b" "take 1 (bcontents h b) \<noteq> ''$''"
  shows "\<exists>h1 p1. BulkString_UnmarshalRESP g h pp B b
            = Inr (h1, p1, B, Some (PrefixMismatch ''$'' (take 1 (bcontents h b))))
          \<and> unread h1 p1 = drop 1 (bcontents h b)"
proof -
  have pv: "prefix_val bulkStrPrefix (bcontents h b)
            = (Some (PrefixMismatch ''$'' (take 1 (bcontents h b))), drop 1 (bcontents h b))"
    using prefix_val_bad[of bulkStrPrefix "bcontents h b"] assms(3) by (simp add: bulkStrPrefix_def)
  have e: "bulk_early (bcontents h b)" by (simp add: bulk_early_def pv)
  have V: "BulkString_val B (bcontents h b)
           = Inr (B, Some (PrefixMismatch ''$'' (take 1 (bcontents h b))), drop 1 (bcontents h b))"
    by (simp add: BulkString_val_def pv)
  show ?thesis
    using BulkString_UnmarshalRESP_val[OF assms(1,2), where B=B and g=g] e unfolding V by auto
qed

lemma SimpleString_prefix_mismatch:
  assumes "wf_pool_opt h pp" "wf_bytes h b" "take 1 (bcontents h b) \<noteq> ''+''"
  shows "\<exists>h1 p1. SimpleString_UnmarshalRESP g h pp S b
            = Inr (h1, p1, S, Some (PrefixMismatch ''+'' (take 1 (bcontents h b))))
          \<and> unread h1 p1 = drop 1 (bcontents h b)"
proof -
  have pv: "prefix_val simpleStrPrefix (bcontents h b)
            = (Some (PrefixMismatch ''+'' (take 1 (bcontents h b))), drop 1 (bcontents h b))"
    using prefix_val_bad[of simpleStrPrefix "bcontents h b"] assms(3) by (simp add: simpleStrPrefix_def)
  show ?thesis
    using SimpleString_UnmarshalRESP_val[OF assms(1,2), where S=S and g=g] unfolding pv by auto
qed

lemma Error_prefix_mismatch:
  assumes "wf_pool_opt h pp" "wf_bytes h b" "take 1 (bcontents h b) \<noteq> ''-''"
  shows "\<exists>h1 p1. Error_UnmarshalRESP g h pp E b
            = Inr (h1, p1, E, Some (PrefixMismatch ''-'' (take 1 (bcontents h b))))
          \<and> unread h1 p1 = drop 1 (bcontents h b)"
proof -
  have pv: "prefix_val errPrefix (bcontents h b)
            = (Some (PrefixMismatch ''-'' (take 1 (bcontents h b))), drop 1 (bcontents h b))"
    using prefix_val_bad[of errPrefix "bcontents h b"] assms(3) by (simp add: errPrefix_def)
  show ?thesis
    using Error_UnmarshalRESP_val[OF assms(1,2), where E=E and g=g] unfolding pv by auto
qed

lemma Int_prefix_mismatch:
  assumes "wf_pool_opt h pp" "wf_bytes h b" "take 1 (bcontents h b) \<noteq> '':''"
  shows "\<exists>h1 p1. Int_UnmarshalRESP g h pp I b
            = Inr (h1, p1, I, Some (PrefixMismatch '':'' (take 1 (bcontents h b))))
          \<and> unread h1 p1 = drop 1 (bcontents h b)"
proof -
  have pv: "prefix_val intPrefix (bcontents h b)
            = (Some (PrefixMismatch '':'' (take 1 (bcontents h b))), drop 1 (bcontents h b))"
    using prefix_val_bad[of intPrefix "bcontents h b"] assms(3) by (simp add: intPrefix_def)
  show ?thesis
    using Int_UnmarshalRESP_val[OF assms(1,2), where I=I and g=g] unfolding pv by auto
qed

lemma ArrayHeader_prefix_mismatch:
  assumes "wf_pool_opt h pp" "wf_bytes h b" "take 1 (bcontents h b) \<noteq> ''*''"
  shows "\<exists>h1 p1. ArrayHeader_UnmarshalRESP g h pp N b
            = Inr (h1, p1, N, Some (PrefixMismatch ''*'' (take 1 (bcontents h b))))
          \<and> unread h1 p1 = drop 1 (bcontents h b)"
proof -
  have pv: "prefix_val arrayPrefix (bcontents h b)
            = (Some (PrefixMismatch ''*'' (take 1 (bcontents h b))), drop 1 (bcontents h b))"
    using prefix_val_bad[of arrayPrefix "bcontents h b"] assms(3) by (simp add: arrayPrefix_def)
  show ?thesis
    using ArrayHeader_UnmarshalRESP_val[OF assms(1,2), where I=N and g=g] unfolding pv by auto
qed

text \<open>
  C8. Each decoder, given input whose first byte is not its type prefix, returns
  at once with an error carrying the expected prefix and the byte found, leaves
  its receiver as it was, and has consumed the one prefix byte and no more.
  So \<open>:5\<close> CR LF decoded as a bulk string is a prefix mismatch of \<open>$\<close> against \<open>:\<close>.
\<close>

theorem prefix_mismatch_fails:
  assumes "wf_pool_opt h pp" "wf_bytes h b"
  shows "(take 1 (bcontents h b) \<noteq> ''+'' \<longrightarrow>
            (\<exists>h1 p1. SimpleString_UnmarshalRESP g h pp S b
                = Inr (h1, p1, S, Some (PrefixMismatch ''+'' (take 1 (bcontents h b))))
              \<and> unread h1 p1 = drop 1 (bcontents h b)))
       \<and> (take 1 (bcontents h b) \<noteq> ''-'' \<longrightarrow>
            (\<exists>h1 p1. Error_UnmarshalRESP g h pp E b
                = Inr (h1, p1, E, Some (PrefixMismatch ''-'' (take 1 (bcontents h b))))
              \<and> unread h1 p1 = drop 1 (bcontents h b)))
       \<and> (take 1 (bcontents h b) \<noteq> '':'' \<longrightarrow>
            (\<exists>h1 p1. Int_UnmarshalRESP g h pp I b
                = Inr (h1, p1, I, Some (PrefixMismatch '':'' (take 1 (bcontents h b))))
              \<and> unread h1 p1 = drop 1 (bcontents h b)))
       \<and> (take 1 (bcontents h b) \<noteq> ''$'' \<longrightarrow>
            (\<exists>h1 p1. BulkString_UnmarshalRESP g h pp B b
                = Inr (h1, p1, B, Some (PrefixMismatch ''$'' (take 1 (bcontents h b))))
              \<and> unread h1 p1 = drop 1 (bcontents h b)))
       \<and> (take 1 (bcontents h b) \<noteq> ''*'' \<longrightarrow>
            (\<exists>h1 p1. ArrayHeader_UnmarshalRESP g h pp N b
                = Inr (h1, p1, N, Some (PrefixMismatch ''*'' (take 1 (bcontents h b))))
              \<and> unread h1 p1 = drop 1 (bcontents h b)))"
  using SimpleString_prefix_mismatch[OF assms] Error_prefix_mismatch[OF assms]
    Int_prefix_mismatch[OF assms] BulkString_prefix_mismatch[OF assms]
    ArrayHeader_prefix_mismatch[OF assms]
  by blast

theorem prefix_mismatch_fails_witness:
  "wf_pool_opt [] None \<and> wf_bytes [] (Ext ('':5'' @ [CR, LF]))
   \<and> take 1 (bcontents [] (Ext ('':5'' @ [CR, LF]))) \<noteq> ''$''
   \<and> (\<exists>h1 p1. BulkString_UnmarshalRESP go_growth [] None (Mem NilSlice) (Ext ('':5'' @ [CR, LF]))
          = Inr (h1, p1, Mem NilSlice, Some (PrefixMismatch ''$'' '':''))
        \<and> unread h1 p1 = ''5'' @ [CR, LF])"
proof -
  have w: "wf_pool_opt [] None" by (simp add: wf_pool_opt_def)
  have b: "wf_bytes [] (Ext ('':5'' @ [CR, LF]))" by simp
  show ?thesis
    using w b prefix_mismatch_fails[OF w b, where g=go_growth and B="Mem NilSlice"] by simp
qed

lemma BulkString_val_success_old:
  assumes "BulkString_val (Ext old) u = Inr (B', None, rest)" "old \<noteq> []"
  shows "B' = Mem NilSlice"
proof -
  obtain pe r1 where pv: "prefix_val bulkStrPrefix u = (pe, r1)" by fastforce
  obtain n e r2 where iv: "int_val r1 = (n, e, r2)" by (metis prod_cases3)
  show ?thesis
  proof (cases "pe = None \<and> e = None \<and> n \<noteq> - 1 \<and> \<not> sint n < 0")
    case False
    then show ?thesis using assms(1) pv iv
      by (auto simp: BulkString_val_def split: if_splits option.splits)
  next
    case True
    define k where "k = nat (sint n)"
    have k: "int k = sint n" using True by (simp add: k_def)
    have "int (length old + length (take k r2)) = sint n \<and> take 2 (drop k r2) = delim"
      using assms(1) pv iv True
      by (auto simp: BulkString_val_def Let_def k_def split: if_splits)
    then have "length old + min (length r2) k = k" "length (take 2 (drop k r2)) = 2"
      using k by (simp_all add: take_drop_delim)
    then have False using assms(2) by (auto simp: min_def split: if_splits)
    then show ?thesis ..
  qed
qed

text \<open>
  C10. A destination that already holds \<open>k > 0\<close> bytes gets the payload of a
  well-formed bulk string of length \<open>n\<close> appended after them, so the decode ends
  in the length error "expected n but got k + n"; and whatever the input, a decode
  into such a destination that returns no error has set it to nil: a non-nil
  result without error needs a nil or empty destination.
\<close>

theorem bulk_decode_appends:
  assumes "wf_pool_opt h pp" "wf_bytes h bb" "old \<noteq> []"
  shows "(length b < 2 ^ 63 \<and> bcontents h bb = ''$'' @ itoa (int (length b)) @ [CR, LF] @ b @ [CR, LF] \<longrightarrow>
            (\<exists>h1 p1. BulkString_UnmarshalRESP g h pp (Ext old) bb
               = Inr (h1, p1, Ext (old @ b),
                      Some (BulkLength (int (length b)) (int (length old + length b))))))
       \<and> (\<forall>h1 p1 B'. BulkString_UnmarshalRESP g h pp (Ext old) bb = Inr (h1, p1, B', None)
             \<longrightarrow> is_nil B')"
proof (intro conjI impI allI)
  assume a: "length b < 2 ^ 63 \<and> bcontents h bb = ''$'' @ itoa (int (length b)) @ [CR, LF] @ b @ [CR, LF]"
  have V: "BulkString_val (Ext old) (bcontents h bb)
           = Inr (Ext (old @ b), Some (BulkLength (int (length b)) (int (length old + length b))), delim)"
    using BulkString_val_wellformed[of b "Ext old"] a assms(3)
    by (simp add: bulkStrPrefix_def delim_def)
  show "\<exists>h1 p1. BulkString_UnmarshalRESP g h pp (Ext old) bb
               = Inr (h1, p1, Ext (old @ b),
                      Some (BulkLength (int (length b)) (int (length old + length b))))"
    using BulkString_UnmarshalRESP_val[OF assms(1,2), where B="Ext old" and g=g]
    unfolding V by auto
next
  fix h1 p1 B'
  assume U: "BulkString_UnmarshalRESP g h pp (Ext old) bb = Inr (h1, p1, B', None)"
  note R = BulkString_UnmarshalRESP_val[OF assms(1,2), where B="Ext old" and g=g]
  show "is_nil B'"
  proof (cases "BulkString_val (Ext old) (bcontents h bb)")
    case (Inl pn)
    then show ?thesis using R U by auto
  next
    case (Inr t)
    obtain a e rest where t: "t = (a, e, rest)" by (metis prod_cases3)
    have "a = B'" "e = None" using R U Inr t by auto
    then have "BulkString_val (Ext old) (bcontents h bb) = Inr (B', None, rest)"
      using Inr t by simp
    from BulkString_val_success_old[OF this assms(3)] show ?thesis by (simp add: is_nil_def)
  qed
qed

theorem bulk_decode_appends_witness:
  "wf_pool_opt [] None \<and> wf_bytes [] (Ext (''$3'' @ [CR, LF] @ ''foo'' @ [CR, LF])) \<and> ''ab'' \<noteq> []
   \<and> length ''foo'' < (2::nat) ^ 63
   \<and> (\<exists>h1 p1. BulkString_UnmarshalRESP go_growth [] None (Ext ''ab'') (Ext (''$3'' @ [CR, LF] @ ''foo'' @ [CR, LF]))
          = Inr (h1, p1, Ext ''abfoo'', Some (BulkLength 3 5)))"
proof -
  have w: "wf_pool_opt [] None" by (simp add: wf_pool_opt_def)
  have b: "wf_bytes [] (Ext (''$3'' @ [CR, LF] @ ''foo'' @ [CR, LF]))" by simp
  have o: "''ab'' \<noteq> []" by simp
  have i3: "itoa 3 = ''3''" by code_simp
  show ?thesis
    using w b bulk_decode_appends[OF w b o, where g=go_growth and b="''foo''"] i3 by simp
qed

text \<open>
  C3. The line reader stops at the first CR, returns the bytes before it and
  consumes the CR and the byte after it, whatever that byte is: the buffered
  input \<open>foo\<close> CR \<open>X\<close> is read as the line \<open>foo\<close> without an error, on the
  primitive itself and through the simple-string decoder.
\<close>

theorem line_accepts_any_byte_after_CR:
  "bufferedBytesDelim [''foo'' @ [CR] @ ''X'']
       \<lparr>buf = \<lparr>bbuf = Slc 0 0 5 5, boff = 0\<rparr>, scratch = NilSlice\<rparr>
     = Inr (Slc 0 0 3 5, None, \<lparr>buf = \<lparr>bbuf = Slc 0 0 5 5, boff = 5\<rparr>, scratch = NilSlice\<rparr>)
   \<and> contents [''foo'' @ [CR] @ ''X''] (Slc 0 0 3 5) = ''foo''
   \<and> (\<exists>h1 p1 S'. SimpleString_UnmarshalRESP go_growth [] None (Mem NilSlice) (Ext (''+foo'' @ [CR] @ ''X''))
          = Inr (h1, p1, S', None) \<and> bcontents h1 S' = ''foo'' \<and> unread h1 p1 = [])"
proof -
  have 1: "bufferedBytesDelim [''foo'' @ [CR] @ ''X'']
       \<lparr>buf = \<lparr>bbuf = Slc 0 0 5 5, boff = 0\<rparr>, scratch = NilSlice\<rparr>
     = Inr (Slc 0 0 3 5, None, \<lparr>buf = \<lparr>bbuf = Slc 0 0 5 5, boff = 5\<rparr>, scratch = NilSlice\<rparr>)"
    by (simp add: bufferedBytesDelim_def readSlice_def Buffer_Bytes_def IndexByte_def CR_def
                  Buffer_Next_def Buffer_Len_def Buffer_ReadByte_def Let_def)
  have w: "wf_pool_opt [] None" by (simp add: wf_pool_opt_def)
  have b: "wf_bytes [] (Ext (''+foo'' @ [CR] @ ''X''))" by simp
  have pv: "prefix_val simpleStrPrefix (bcontents [] (Ext (''+foo'' @ [CR] @ ''X''))) = (None, ''foo'' @ CR # CHR ''X'' # [])"
    by (simp add: prefix_val_def simpleStrPrefix_def)
  have lv: "line_val [CHR ''f'', CHR ''o'', CHR ''o'', CR, CHR ''X''] = (Some ''foo'', None, [])"
    using line_val_line[of "''foo''" "CHR ''X''" "[]"] by (simp add: CR_def)
  have 3: "\<exists>h1 p1 S'. SimpleString_UnmarshalRESP go_growth [] None (Mem NilSlice) (Ext (''+foo'' @ [CR] @ ''X''))
          = Inr (h1, p1, S', None) \<and> bcontents h1 S' = ''foo'' \<and> unread h1 p1 = []"
    using SimpleString_UnmarshalRESP_val[OF w b, where S="Mem NilSlice" and g=go_growth] pv lv
    by auto
  show ?thesis using 1 3 by simp
qed

end
